theory Spec2Isabelle
  imports Main "HOL-Library.AList"
begin

section \<open>The OAuth2 token lifecycle of spotify_mcp/auth.py\<close>

text \<open>
  The module keeps one token set in a JSON file, obtains the first one through a browser
  redirect captured by a one-request local HTTP server, and refreshes it when a probe
  request to the provider answers 401. Everything the module does to its surroundings
  (environment variables, the credential file, the class attribute holding the captured
  code, sockets, threads, network calls) is made explicit: the surroundings that the code
  changes are a record that every function takes and returns, what the code only asks of
  its surroundings (the JSON library, the provider, the browser's redirect) is a record of
  parameters, and every effect is appended to a trace.
\<close>

subsection \<open>JSON values and the Python operations the module applies to them\<close>

datatype json =
    JNull
  | JBool bool
  | JInt int
  | JStr string
  | JArr "json list"
  | JObj "(string \<times> json) list"

datatype error =
    RuntimeError string
  | KeyError string
  | TypeError
  | IndexError
  | JSONDecodeError
  | OSError
  | HTTPStatusError nat
  | TransportError
  | ValueError
  | RecursionError
  | OutsideModel

text \<open>Python truthiness, as used by \<^verbatim>\<open>if not tokens\<close>.\<close>

fun truthy :: "json \<Rightarrow> bool" where
  "truthy JNull = False"
| "truthy (JBool b) = b"
| "truthy (JInt n) = (n \<noteq> 0)"
| "truthy (JStr s) = (s \<noteq> [])"
| "truthy (JArr xs) = (xs \<noteq> [])"
| "truthy (JObj kvs) = (kvs \<noteq> [])"

text \<open>\<^verbatim>\<open>tokens[key]\<close> with a string key: only a dict can be subscripted by a string.\<close>

fun getitem :: "json \<Rightarrow> string \<Rightarrow> error + json" where
  "getitem (JObj kvs) k = (case map_of kvs k of None \<Rightarrow> Inl (KeyError k) | Some v \<Rightarrow> Inr v)"
| "getitem _ k = Inl TypeError"

fun starts_with :: "string \<Rightarrow> string \<Rightarrow> bool" where
  "starts_with [] s = True"
| "starts_with (c # cs) [] = False"
| "starts_with (c # cs) (d # ds) = (c = d \<and> starts_with cs ds)"

fun str_contains :: "string \<Rightarrow> string \<Rightarrow> bool" where
  "str_contains [] needle = (needle = [])"
| "str_contains (c # cs) needle = (starts_with needle (c # cs) \<or> str_contains cs needle)"

text \<open>\<^verbatim>\<open>key in value\<close>: key membership for a dict, element membership for a list, substring
  test for a string; the other JSON values are not iterable.\<close>

fun contains :: "json \<Rightarrow> string \<Rightarrow> error + bool" where
  "contains (JObj kvs) k = Inr (k \<in> fst ` set kvs)"
| "contains (JArr xs) k = Inr (JStr k \<in> set xs)"
| "contains (JStr s) k = Inr (str_contains s k)"
| "contains _ k = Inl TypeError"

text \<open>\<^verbatim>\<open>value[key] = v\<close> with a string key: a dict keeps the position of an existing key
  and appends a new one.\<close>

fun setitem :: "json \<Rightarrow> string \<Rightarrow> json \<Rightarrow> error + json" where
  "setitem (JObj kvs) k v = Inr (JObj (AList.update k v kvs))"
| "setitem _ k v = Inl TypeError"

subsection \<open>The surroundings\<close>

datatype token_request =
    AuthorizationCode string string
  | RefreshToken json

datatype http_result =
    NoResponse
  | Response nat string

datatype redirect =
    NoRequest
  | Request string

datatype event =
    SocketBound
  | ThreadStarted
  | BrowserOpened "(string \<times> string) list"
  | RequestAnswered nat string
  | ThreadFinished
  | JoinReturned
  | JoinTimedOut
  | ServerCloseCalled
  | TokenPost token_request "string \<times> string"
  | ProbeGet json
  | FileTruncated
  | FileWritten string

text \<open>
  What the code changes: \<open>environ\<close> is \<^verbatim>\<open>os.environ\<close>, \<open>token_file\<close> the content of
  \<^verbatim>\<open>TOKEN_PATH\<close> (\<open>None\<close> when the file does not exist), \<open>auth_code\<close> the class attribute
  \<^verbatim>\<open>_CallbackHandler.auth_code\<close>, \<open>port_free\<close> whether 127.0.0.1:8888 can be bound (no
  socket is listening on it), \<open>trace\<close> the effects so far, oldest first.
\<close>

record world =
  environ :: "string \<Rightarrow> string option"
  token_file :: "string option"
  auth_code :: "string option"
  port_free :: bool
  trace :: "event list"

text \<open>
  What the code asks of its surroundings: \<open>dumps\<close> and \<open>loads\<close> are \<^verbatim>\<open>json.dumps\<close> and
  \<^verbatim>\<open>json.loads\<close> (also behind \<^verbatim>\<open>response.json()\<close>); \<open>post_token\<close> is the provider's token
  endpoint, given the form data and the Basic-auth pair; \<open>get_me\<close> is the provider's answer
  to the probe carrying the given bearer token; \<open>redirect\<close> is the one request that reaches
  the listener within the 120 seconds of the join, given by the query string of its path
  (\<^verbatim>\<open>urlparse(self.path).query\<close>), or \<open>NoRequest\<close>; \<open>pct_decode\<close> is what
  \<^verbatim>\<open>urllib.parse.unquote\<close> makes of a string that contains a percent sign.
\<close>

record ext =
  dumps :: "json \<Rightarrow> string"
  loads :: "string \<Rightarrow> error + json"
  post_token :: "token_request \<Rightarrow> string \<times> string \<Rightarrow> http_result"
  get_me :: "json \<Rightarrow> http_result"
  redirect :: redirect
  pct_decode :: "string \<Rightarrow> string"

definition emit :: "event list \<Rightarrow> world \<Rightarrow> world" where
  "emit evs w = w\<lparr>trace := trace w @ evs\<rparr>"

definition REDIRECT_URI :: string where
  "REDIRECT_URI = ''http://127.0.0.1:8888/callback''"

definition SCOPES :: string where
  "SCOPES = ''user-read-currently-playing playlist-modify-public playlist-modify-private''"

definition missing_credentials :: error where
  "missing_credentials = RuntimeError
     ''SPOTIFY_CLIENT_ID and SPOTIFY_CLIENT_SECRET environment variables must be set.''"

definition timed_out_or_failed :: error where
  "timed_out_or_failed = RuntimeError ''Authorization timed out or failed.''"

text \<open>\<^verbatim>\<open>response.raise_for_status()\<close> of httpx raises unless the status is 2xx.\<close>

definition is_success :: "nat \<Rightarrow> bool" where
  "is_success st = (200 \<le> st \<and> st \<le> 299)"

subsection \<open>Credentials and the credential file\<close>

text \<open>\<^verbatim>\<open>not client_id\<close> holds for a variable that is unset and for one set to the empty string.\<close>

definition get_credentials :: "world \<Rightarrow> error + (string \<times> string)" where
  "get_credentials w =
     (case environ w ''SPOTIFY_CLIENT_ID'' of
        None \<Rightarrow> Inl missing_credentials
      | Some client_id \<Rightarrow>
          (case environ w ''SPOTIFY_CLIENT_SECRET'' of
             None \<Rightarrow> Inl missing_credentials
           | Some client_secret \<Rightarrow>
               if client_id = [] \<or> client_secret = [] then Inl missing_credentials
               else Inr (client_id, client_secret)))"

text \<open>
  \<^verbatim>\<open>Path.write_text\<close> opens the file itself in mode \<^verbatim>\<open>w\<close>, which empties it, and then
  writes the data into it: \<open>write_text_states\<close> lists the successive states of the
  surroundings, each of which another reader of the file can observe, the last being the
  state when \<^verbatim>\<open>write_text\<close> returns.
\<close>

definition write_text_states :: "string \<Rightarrow> world \<Rightarrow> world list" where
  "write_text_states data w =
     [emit [FileTruncated] (w\<lparr>token_file := Some []\<rparr>),
      emit [FileTruncated, FileWritten data] (w\<lparr>token_file := Some data\<rparr>)]"

definition write_text :: "string \<Rightarrow> world \<Rightarrow> world" where
  "write_text data w = last (write_text_states data w)"

definition save_tokens :: "ext \<Rightarrow> json \<Rightarrow> world \<Rightarrow> world" where
  "save_tokens x tokens w = write_text (dumps x tokens) w"

definition load_tokens :: "ext \<Rightarrow> world \<Rightarrow> error + json option" where
  "load_tokens x w =
     (case token_file w of
        None \<Rightarrow> Inr None
      | Some text \<Rightarrow> (case loads x text of Inl e \<Rightarrow> Inl e | Inr v \<Rightarrow> Inr (Some v)))"

subsection \<open>The callback handler\<close>

definition success_page :: string where
  "success_page = ''<h1>Authorization successful!</h1><p>You can close this tab.</p>''"

definition failure_page :: "string \<Rightarrow> string" where
  "failure_page err = ''<h1>Authorization failed: '' @ err @ ''</h1>''"

text \<open>
  \<^verbatim>\<open>parse_qs\<close> of \<^verbatim>\<open>urllib.parse\<close>, with its default arguments: the query string is split
  at every \<^verbatim>\<open>&\<close>, each field at its first \<^verbatim>\<open>=\<close>; an empty field, a field without \<^verbatim>\<open>=\<close>
  and a field whose value is blank are dropped; in the name and the value of the others
  \<^verbatim>\<open>+\<close> becomes a space and percent escapes are decoded; the values are collected by name,
  in their order.
\<close>

fun split_on :: "char \<Rightarrow> string \<Rightarrow> string list" where
  "split_on sep [] = [[]]"
| "split_on sep (c # cs) =
     (if c = sep then [] # split_on sep cs
      else (case split_on sep cs of [] \<Rightarrow> [[c]] | f # fs \<Rightarrow> (c # f) # fs))"

definition split_first :: "char \<Rightarrow> string \<Rightarrow> string list" where
  "split_first sep s =
     (if sep \<in> set s
      then [takeWhile (\<lambda>c. c \<noteq> sep) s, tl (dropWhile (\<lambda>c. c \<noteq> sep) s)]
      else [s])"

definition unquote :: "ext \<Rightarrow> string \<Rightarrow> string" where
  "unquote x s = (if CHR ''%'' \<in> set s then pct_decode x s else s)"

definition plus_to_space :: "string \<Rightarrow> string" where
  "plus_to_space s = map (\<lambda>c. if c = CHR ''+'' then CHR '' '' else c) s"

definition parse_field :: "ext \<Rightarrow> string \<Rightarrow> (string \<times> string) list" where
  "parse_field x name_value =
     (if name_value = [] then []
      else (case split_first CHR ''='' name_value of
              [name, v] \<Rightarrow>
                if v \<noteq> [] then [(unquote x (plus_to_space name), unquote x (plus_to_space v))]
                else []
            | _ \<Rightarrow> []))"

definition parse_qsl :: "ext \<Rightarrow> string \<Rightarrow> (string \<times> string) list" where
  "parse_qsl x qs = concat (map (parse_field x) (split_on CHR ''&'' qs))"

definition parse_qs :: "ext \<Rightarrow> string \<Rightarrow> string \<Rightarrow> string list option" where
  "parse_qs x qs name =
     (case map snd (filter (\<lambda>(n, v). n = name) (parse_qsl x qs)) of
        [] \<Rightarrow> None
      | v # vs \<Rightarrow> Some (v # vs))"

text \<open>
  \<open>do_GET\<close> takes the query string of the request and the class attribute, and returns
  the response it sends with the new value of the attribute; subscripting an empty list
  raises.
\<close>

definition do_GET ::
  "ext \<Rightarrow> string \<Rightarrow> string option \<Rightarrow> error + ((nat \<times> string) \<times> string option)"
where
  "do_GET x qs ac =
     (let query = parse_qs x qs in
      case query ''code'' of
        Some cs \<Rightarrow>
          (case cs of
             [] \<Rightarrow> Inl IndexError
           | c # _ \<Rightarrow> Inr ((200, success_page), Some c))
      | None \<Rightarrow>
          (case (case query ''error'' of None \<Rightarrow> [''unknown''] | Some es \<Rightarrow> es) of
             [] \<Rightarrow> Inl IndexError
           | err # _ \<Rightarrow> Inr ((400, failure_page err), ac)))"

subsection \<open>The authorization flow\<close>

definition authorize_params :: "string \<Rightarrow> (string \<times> string) list" where
  "authorize_params client_id =
     [(''response_type'', ''code''), (''client_id'', client_id),
      (''scope'', SCOPES), (''redirect_uri'', REDIRECT_URI)]"

text \<open>
  Lines 72 to 80: the server is bound, the class attribute reset, the thread running
  \<^verbatim>\<open>handle_request\<close> started, the browser opened, the thread joined for at most 120 seconds
  and \<^verbatim>\<open>server_close()\<close> called. The thread ends when it has handled one request; an
  exception of the handler is caught by the server, which then ends the request all the
  same. When no request arrives, the join gives up and the thread is still running,
  waiting on the listening socket: \<^verbatim>\<open>server_close()\<close> then closes the descriptor of the
  main thread only, the socket stays in the listening state and the port is not released.
\<close>

definition listen :: "ext \<Rightarrow> string \<Rightarrow> world \<Rightarrow> world" where
  "listen x client_id w =
     (let w1 = emit [SocketBound] (w\<lparr>port_free := False\<rparr>);
          w2 = w1\<lparr>auth_code := None\<rparr>;
          w3 = emit [ThreadStarted, BrowserOpened (authorize_params client_id)] w2
      in case redirect x of
           NoRequest \<Rightarrow> emit [JoinTimedOut, ServerCloseCalled] w3
         | Request qs \<Rightarrow>
             (case do_GET x qs (auth_code w3) of
                Inl e \<Rightarrow>
                  emit [ThreadFinished, JoinReturned, ServerCloseCalled]
                    (w3\<lparr>port_free := True\<rparr>)
              | Inr ((st, body), ac) \<Rightarrow>
                  emit [RequestAnswered st body, ThreadFinished, JoinReturned, ServerCloseCalled]
                    (w3\<lparr>auth_code := ac, port_free := True\<rparr>)))"

definition authorize :: "ext \<Rightarrow> world \<Rightarrow> (error + json) \<times> world" where
  "authorize x w =
     (case get_credentials w of
        Inl e \<Rightarrow> (Inl e, w)
      | Inr (client_id, client_secret) \<Rightarrow>
          if \<not> port_free w then (Inl OSError, w)
          else
            (let w1 = listen x client_id w in
             case auth_code w1 of
               None \<Rightarrow> (Inl timed_out_or_failed, w1)
             | Some code \<Rightarrow>
                 if code = [] then (Inl timed_out_or_failed, w1)
                 else
                   (let req = AuthorizationCode code REDIRECT_URI;
                        w2 = emit [TokenPost req (client_id, client_secret)] w1 in
                    case post_token x req (client_id, client_secret) of
                      NoResponse \<Rightarrow> (Inl TransportError, w2)
                    | Response st body \<Rightarrow>
                        if \<not> is_success st then (Inl (HTTPStatusError st), w2)
                        else
                          (case loads x body of
                             Inl e \<Rightarrow> (Inl e, w2)
                           | Inr tokens \<Rightarrow> (Inr tokens, save_tokens x tokens w2)))))"

subsection \<open>Refreshing\<close>

definition refresh_access_token :: "ext \<Rightarrow> json \<Rightarrow> world \<Rightarrow> (error + json) \<times> world" where
  "refresh_access_token x refresh_token w =
     (case get_credentials w of
        Inl e \<Rightarrow> (Inl e, w)
      | Inr (client_id, client_secret) \<Rightarrow>
          (let req = RefreshToken refresh_token;
               w1 = emit [TokenPost req (client_id, client_secret)] w in
           case post_token x req (client_id, client_secret) of
             NoResponse \<Rightarrow> (Inl TransportError, w1)
           | Response st body \<Rightarrow>
               if \<not> is_success st then (Inl (HTTPStatusError st), w1)
               else
                 (case loads x body of
                    Inl e \<Rightarrow> (Inl e, w1)
                  | Inr new_tokens \<Rightarrow>
                      (case contains new_tokens ''refresh_token'' of
                         Inl e \<Rightarrow> (Inl e, w1)
                       | Inr True \<Rightarrow> (Inr new_tokens, save_tokens x new_tokens w1)
                       | Inr False \<Rightarrow>
                           (case setitem new_tokens ''refresh_token'' refresh_token of
                              Inl e \<Rightarrow> (Inl e, w1)
                            | Inr new_tokens' \<Rightarrow>
                                (Inr new_tokens', save_tokens x new_tokens' w1))))))"

subsection \<open>The supervisor\<close>

text \<open>Lines 126 and 127: \<^verbatim>\<open>tokens = authorize()\<close>, then \<^verbatim>\<open>return tokens["access_token"]\<close>.\<close>

definition authorize_first :: "ext \<Rightarrow> world \<Rightarrow> (error + json) \<times> world" where
  "authorize_first x w =
     (case authorize x w of
        (Inl e, w1) \<Rightarrow> (Inl e, w1)
      | (Inr tokens, w1) \<Rightarrow> (getitem tokens ''access_token'', w1))"

definition get_access_token :: "ext \<Rightarrow> world \<Rightarrow> (error + json) \<times> world" where
  "get_access_token x w =
     (case load_tokens x w of
        Inl e \<Rightarrow> (Inl e, w)
      | Inr None \<Rightarrow> authorize_first x w
      | Inr (Some tokens) \<Rightarrow>
          if \<not> truthy tokens then authorize_first x w
          else
            (case getitem tokens ''access_token'' of
               Inl e \<Rightarrow> (Inl e, w)
             | Inr bearer \<Rightarrow>
                 (let w1 = emit [ProbeGet bearer] w in
                  case get_me x bearer of
                    NoResponse \<Rightarrow> (Inl TransportError, w1)
                  | Response st body \<Rightarrow>
                      if st = 401 then
                        (case getitem tokens ''refresh_token'' of
                           Inl e \<Rightarrow> (Inl e, w1)
                         | Inr rt \<Rightarrow>
                             (case refresh_access_token x rt w1 of
                                (Inl e, w2) \<Rightarrow> (Inl e, w2)
                              | (Inr new_tokens, w2) \<Rightarrow>
                                  (getitem new_tokens ''access_token'', w2)))
                      else (getitem tokens ''access_token'', w1))))"

subsection \<open>Reading the trace\<close>

fun is_token_post :: "event \<Rightarrow> bool" where
  "is_token_post (TokenPost req cred) = True"
| "is_token_post _ = False"

fun is_refresh_post :: "event \<Rightarrow> bool" where
  "is_refresh_post (TokenPost (RefreshToken rt) cred) = True"
| "is_refresh_post _ = False"

fun is_authorization_event :: "event \<Rightarrow> bool" where
  "is_authorization_event SocketBound = True"
| "is_authorization_event ThreadStarted = True"
| "is_authorization_event (BrowserOpened ps) = True"
| "is_authorization_event (TokenPost (AuthorizationCode c u) cred) = True"
| "is_authorization_event _ = False"

fun is_file_event :: "event \<Rightarrow> bool" where
  "is_file_event FileTruncated = True"
| "is_file_event (FileWritten s) = True"
| "is_file_event _ = False"

fun is_listener_event :: "event \<Rightarrow> bool" where
  "is_listener_event SocketBound = True"
| "is_listener_event ThreadStarted = True"
| "is_listener_event ThreadFinished = True"
| "is_listener_event ServerCloseCalled = True"
| "is_listener_event _ = False"

text \<open>
  \<open>closed_unjoined running es\<close>: somewhere in \<open>es\<close> \<^verbatim>\<open>server_close()\<close> is called while the
  listener thread is running, \<open>running\<close> saying whether it runs before \<open>es\<close>.
\<close>

fun closed_unjoined :: "bool \<Rightarrow> event list \<Rightarrow> bool" where
  "closed_unjoined running [] = False"
| "closed_unjoined running (ThreadStarted # es) = closed_unjoined True es"
| "closed_unjoined running (ThreadFinished # es) = closed_unjoined False es"
| "closed_unjoined running (ServerCloseCalled # es) = (running \<or> closed_unjoined running es)"
| "closed_unjoined running (e # es) = closed_unjoined running es"

text \<open>The effects of one call of \<open>authorize\<close>.\<close>

definition authorize_events :: "ext \<Rightarrow> world \<Rightarrow> event list" where
  "authorize_events x w = drop (length (trace w)) (trace (snd (authorize x w)))"

subsection \<open>The JSON library\<close>

text \<open>
  \<^verbatim>\<open>json.dumps\<close> and \<^verbatim>\<open>json.loads\<close> with their default arguments, on the values of the type
  \<open>json\<close>. A Python string is the list of its code points, which are below 256 here, and
  there are no floats: where \<^verbatim>\<open>json.loads\<close> meets a float (a number with a fraction or an
  exponent, \<^verbatim>\<open>NaN\<close>, \<^verbatim>\<open>Infinity\<close>) or the escape of a code point from 256 on, the
  model answers \<open>OutsideModel\<close>, which is no exception of Python. The limits of the
  interpreter on the depth of recursion are not modelled; its limit on the conversion
  between integers and text, 4300 digits, is modelled where the text is read, and
  \<open>json_dumps\<close> is the text that \<^verbatim>\<open>json.dumps\<close> returns for the integers within it.
\<close>

definition quote :: char where
  "quote = CHR 0x22"

definition backslash :: char where
  "backslash = CHR 0x5C"

definition hex_digit :: "nat \<Rightarrow> char" where
  "hex_digit n = ''0123456789abcdef'' ! n"

text \<open>\<^verbatim>\<open>py_encode_basestring_ascii\<close>: the replacement of one character.\<close>

definition escape_char :: "char \<Rightarrow> string" where
  "escape_char c =
     (if c = quote then [backslash, quote]
      else if c = backslash then [backslash, backslash]
      else if c = CHR 0x0A then [backslash, CHR ''n'']
      else if c = CHR 0x0D then [backslash, CHR ''r'']
      else if c = CHR 0x09 then [backslash, CHR ''t'']
      else if c = CHR 0x08 then [backslash, CHR ''b'']
      else if c = CHR 0x0C then [backslash, CHR ''f'']
      else if of_char c < (32::nat) \<or> (126::nat) < of_char c
        then [backslash, CHR ''u'', CHR ''0'', CHR ''0'',
              hex_digit (of_char c div 16), hex_digit (of_char c mod 16)]
      else [c])"

definition encode_str :: "string \<Rightarrow> string" where
  "encode_str s = quote # concat (map escape_char s) @ [quote]"

text \<open>\<^verbatim>\<open>str(n)\<close> for an integer.\<close>

definition digit_char :: "nat \<Rightarrow> char" where
  "digit_char n = ''0123456789'' ! n"

fun digits :: "nat \<Rightarrow> string" where
  "digits n =
     (if n < 10 then [digit_char n]
      else digits (n div 10) @ [digit_char (n mod 10)])"

declare digits.simps [simp del]

definition show_int :: "int \<Rightarrow> string" where
  "show_int n = (if n < 0 then CHR ''-'' # digits (nat (- n)) else digits (nat n))"

fun json_dumps :: "json \<Rightarrow> string"
  and dumps_items :: "json list \<Rightarrow> string"
  and dumps_members :: "(string \<times> json) list \<Rightarrow> string"
where
  "json_dumps JNull = ''null''"
| "json_dumps (JBool b) = (if b then ''true'' else ''false'')"
| "json_dumps (JInt n) = show_int n"
| "json_dumps (JStr s) = encode_str s"
| "json_dumps (JArr xs) = CHR ''['' # dumps_items xs @ '']''"
| "json_dumps (JObj kvs) = CHR ''{'' # dumps_members kvs @ ''}''"
| "dumps_items [] = []"
| "dumps_items [x] = json_dumps x"
| "dumps_items (x # y # xs) = json_dumps x @ '', '' @ dumps_items (y # xs)"
| "dumps_members [] = []"
| "dumps_members [(k, v)] = encode_str k @ '': '' @ json_dumps v"
| "dumps_members ((k, v) # m # kvs) =
     encode_str k @ '': '' @ json_dumps v @ '', '' @ dumps_members (m # kvs)"

text \<open>\<^verbatim>\<open>json.decoder\<close>: white space, strings (strict), numbers.\<close>

definition is_ws :: "char \<Rightarrow> bool" where
  "is_ws c = (c = CHR '' '' \<or> c = CHR 0x09 \<or> c = CHR 0x0A \<or> c = CHR 0x0D)"

definition skip_ws :: "string \<Rightarrow> string" where
  "skip_ws s = dropWhile is_ws s"

definition is_digit :: "char \<Rightarrow> bool" where
  "is_digit c = ((48::nat) \<le> of_char c \<and> of_char c \<le> (57::nat))"

definition hex_value :: "char \<Rightarrow> nat option" where
  "hex_value c =
     (let n = of_char c :: nat in
      if 48 \<le> n \<and> n \<le> 57 then Some (n - 48)
      else if 97 \<le> n \<and> n \<le> 102 then Some (n - 87)
      else if 65 \<le> n \<and> n \<le> 70 then Some (n - 55)
      else None)"

definition unescape :: "char \<Rightarrow> char option" where
  "unescape c =
     (if c = quote then Some quote
      else if c = backslash then Some backslash
      else if c = CHR ''/'' then Some CHR ''/''
      else if c = CHR ''b'' then Some (CHR 0x08)
      else if c = CHR ''f'' then Some (CHR 0x0C)
      else if c = CHR ''n'' then Some (CHR 0x0A)
      else if c = CHR ''r'' then Some (CHR 0x0D)
      else if c = CHR ''t'' then Some (CHR 0x09)
      else None)"

definition prepend :: "char \<Rightarrow> error + (string \<times> string) \<Rightarrow> error + (string \<times> string)" where
  "prepend c r = (case r of Inl e \<Rightarrow> Inl e | Inr (s, rest) \<Rightarrow> Inr (c # s, rest))"

text \<open>\<open>scanstring\<close> reads a string from behind its opening quote to its closing quote.\<close>

fun scanstring :: "string \<Rightarrow> error + (string \<times> string)" where
  "scanstring [] = Inl JSONDecodeError"
| "scanstring (c # cs) =
     (if c = quote then Inr ([], cs)
      else if c = backslash then
        (case cs of
           [] \<Rightarrow> Inl JSONDecodeError
         | e # cs1 \<Rightarrow>
             if e = CHR ''u'' then
               (case cs1 of
                  h1 # h2 # h3 # h4 # cs2 \<Rightarrow>
                    (case (hex_value h1, hex_value h2, hex_value h3, hex_value h4) of
                       (Some a, Some b, Some c, Some d) \<Rightarrow>
                         if a = 0 \<and> b = 0 then prepend (char_of (16 * c + d)) (scanstring cs2)
                         else Inl OutsideModel
                     | _ \<Rightarrow> Inl JSONDecodeError)
                | _ \<Rightarrow> Inl JSONDecodeError)
             else
               (case unescape e of
                  None \<Rightarrow> Inl JSONDecodeError
                | Some d \<Rightarrow> prepend d (scanstring cs1)))
      else if of_char c < (32::nat) then Inl JSONDecodeError
      else prepend c (scanstring cs))"

definition digits_value :: "string \<Rightarrow> nat" where
  "digits_value ds = foldl (\<lambda>a d. 10 * a + (of_char d - 48)) 0 ds"

text \<open>
  The integer part of a number, \<^verbatim>\<open>0|[1-9][0-9]*\<close>: its digits and what follows them.
\<close>

definition match_int :: "string \<Rightarrow> (string \<times> string) option" where
  "match_int s =
     (case s of
        [] \<Rightarrow> None
      | c # cs \<Rightarrow>
          if c = CHR ''0'' then Some ([c], cs)
          else if is_digit c then Some (takeWhile is_digit s, dropWhile is_digit s)
          else None)"

text \<open>Whether a fraction \<^verbatim>\<open>\.[0-9]+\<close> or an exponent \<^verbatim>\<open>[eE][-+]?[0-9]+\<close> follows.\<close>

definition float_follows :: "string \<Rightarrow> bool" where
  "float_follows s =
     (case s of
        [] \<Rightarrow> False
      | c # cs \<Rightarrow>
          if c = CHR ''.'' then (case cs of [] \<Rightarrow> False | d # _ \<Rightarrow> is_digit d)
          else if c = CHR ''e'' \<or> c = CHR ''E'' then
            (case cs of
               [] \<Rightarrow> False
             | d # ds \<Rightarrow>
                 if d = CHR ''+'' \<or> d = CHR ''-''
                 then (case ds of [] \<Rightarrow> False | d2 # _ \<Rightarrow> is_digit d2)
                 else is_digit d)
          else False)"

definition scan_number :: "string \<Rightarrow> (error + (json \<times> string)) option" where
  "scan_number s =
     (let negative = (s \<noteq> [] \<and> hd s = CHR ''-'');
          body = (if negative then tl s else s)
      in case match_int body of
           None \<Rightarrow> None
         | Some (ds, rest) \<Rightarrow>
             if float_follows rest then Some (Inl OutsideModel)
             else if 4300 < length ds then Some (Inl ValueError)
             else Some (Inr (JInt (if negative then - int (digits_value ds)
                                   else int (digits_value ds)), rest)))"

text \<open>\<^verbatim>\<open>dict(pairs)\<close>: a key that comes again keeps its place and takes the new value.\<close>

definition dict :: "(string \<times> json) list \<Rightarrow> (string \<times> json) list" where
  "dict pairs = foldl (\<lambda>d (k, v). AList.update k v d) [] pairs"

text \<open>
  The scanner, with the number of calls it may still make: \<open>parse_value\<close> reads one
  value, \<open>parse_items\<close> the items of an array up to its closing bracket, \<open>parse_members\<close>
  the members of an object from behind the opening quote of the first key up to the
  closing brace.
\<close>

fun parse_value :: "nat \<Rightarrow> string \<Rightarrow> error + (json \<times> string)"
  and parse_items :: "nat \<Rightarrow> string \<Rightarrow> error + (json list \<times> string)"
  and parse_members :: "nat \<Rightarrow> string \<Rightarrow> error + ((string \<times> json) list \<times> string)"
where
  "parse_value 0 s = Inl RecursionError"
| "parse_value (Suc n) s =
     (case s of
        [] \<Rightarrow> Inl JSONDecodeError
      | c # cs \<Rightarrow>
          if c = quote then
            (case scanstring cs of
               Inl e \<Rightarrow> Inl e
             | Inr (str, rest) \<Rightarrow> Inr (JStr str, rest))
          else if c = CHR ''{'' then
            (case skip_ws cs of
               [] \<Rightarrow> Inl JSONDecodeError
             | d # rest \<Rightarrow>
                 if d = CHR ''}'' then Inr (JObj [], rest)
                 else if d = quote then
                   (case parse_members n rest of
                      Inl e \<Rightarrow> Inl e
                    | Inr (pairs, rest') \<Rightarrow> Inr (JObj (dict pairs), rest'))
                 else Inl JSONDecodeError)
          else if c = CHR ''['' then
            (case skip_ws cs of
               [] \<Rightarrow> Inl JSONDecodeError
             | d # rest \<Rightarrow>
                 if d = CHR '']'' then Inr (JArr [], rest)
                 else
                   (case parse_items n (d # rest) of
                      Inl e \<Rightarrow> Inl e
                    | Inr (xs, rest') \<Rightarrow> Inr (JArr xs, rest')))
          else if starts_with ''null'' s then Inr (JNull, drop 4 s)
          else if starts_with ''true'' s then Inr (JBool True, drop 4 s)
          else if starts_with ''false'' s then Inr (JBool False, drop 5 s)
          else
            (case scan_number s of
               Some r \<Rightarrow> r
             | None \<Rightarrow>
                 if starts_with ''NaN'' s \<or> starts_with ''Infinity'' s
                    \<or> starts_with ''-Infinity'' s
                 then Inl OutsideModel
                 else Inl JSONDecodeError))"
| "parse_items 0 s = Inl RecursionError"
| "parse_items (Suc n) s =
     (case parse_value n s of
        Inl e \<Rightarrow> Inl e
      | Inr (v, rest) \<Rightarrow>
          (case skip_ws rest of
             [] \<Rightarrow> Inl JSONDecodeError
           | d # rest1 \<Rightarrow>
               if d = CHR '']'' then Inr ([v], rest1)
               else if d = CHR '','' then
                 (case parse_items n (skip_ws rest1) of
                    Inl e \<Rightarrow> Inl e
                  | Inr (vs, rest2) \<Rightarrow> Inr (v # vs, rest2))
               else Inl JSONDecodeError))"
| "parse_members 0 s = Inl RecursionError"
| "parse_members (Suc n) s =
     (case scanstring s of
        Inl e \<Rightarrow> Inl e
      | Inr (key, rest) \<Rightarrow>
          (case skip_ws rest of
             [] \<Rightarrow> Inl JSONDecodeError
           | d # rest1 \<Rightarrow>
               if d \<noteq> CHR '':'' then Inl JSONDecodeError
               else
                 (case parse_value n (skip_ws rest1) of
                    Inl e \<Rightarrow> Inl e
                  | Inr (v, rest2) \<Rightarrow>
                      (case skip_ws rest2 of
                         [] \<Rightarrow> Inl JSONDecodeError
                       | d2 # rest3 \<Rightarrow>
                           if d2 = CHR ''}'' then Inr ([(key, v)], rest3)
                           else if d2 = CHR '','' then
                             (case skip_ws rest3 of
                                [] \<Rightarrow> Inl JSONDecodeError
                              | q # rest4 \<Rightarrow>
                                  if q = quote then
                                    (case parse_members n rest4 of
                                       Inl e \<Rightarrow> Inl e
                                     | Inr (ps, rest5) \<Rightarrow> Inr ((key, v) # ps, rest5))
                                  else Inl JSONDecodeError)
                           else Inl JSONDecodeError))))"

text \<open>
  \<^verbatim>\<open>json.loads\<close>: white space, one value, white space, and nothing more. Of two calls of
  the scanner that follow each other, one reads at least one character, so that twice the
  length of the text bounds their number: the scanner never stops for lack of calls
  (\<open>json_loads_no_recursion_error\<close> below).
\<close>

definition json_loads :: "string \<Rightarrow> error + json" where
  "json_loads s =
     (case parse_value (Suc (2 * length s)) (skip_ws s) of
        Inl e \<Rightarrow> Inl e
      | Inr (v, rest) \<Rightarrow> if skip_ws rest = [] then Inr v else Inl JSONDecodeError)"

text \<open>
  The values that are written and read back as they are: the keys of every object are
  distinct and every integer has at most 4300 digits. \<open>height\<close> bounds the calls the
  scanner makes to read a value back.
\<close>

fun wf_json :: "json \<Rightarrow> bool"
  and wf_items :: "json list \<Rightarrow> bool"
  and wf_members :: "(string \<times> json) list \<Rightarrow> bool"
where
  "wf_json JNull = True"
| "wf_json (JBool b) = True"
| "wf_json (JInt n) = (length (digits (nat \<bar>n\<bar>)) \<le> 4300)"
| "wf_json (JStr s) = True"
| "wf_json (JArr xs) = wf_items xs"
| "wf_json (JObj kvs) = (distinct (map fst kvs) \<and> wf_members kvs)"
| "wf_items [] = True"
| "wf_items (x # xs) = (wf_json x \<and> wf_items xs)"
| "wf_members [] = True"
| "wf_members ((k, v) # kvs) = (wf_json v \<and> wf_members kvs)"

fun height :: "json \<Rightarrow> nat"
  and height_items :: "json list \<Rightarrow> nat"
  and height_members :: "(string \<times> json) list \<Rightarrow> nat"
where
  "height JNull = 1"
| "height (JBool b) = 1"
| "height (JInt n) = 1"
| "height (JStr s) = 1"
| "height (JArr xs) = Suc (height_items xs)"
| "height (JObj kvs) = Suc (height_members kvs)"
| "height_items [] = 0"
| "height_items (x # xs) = Suc (max (height x) (height_items xs))"
| "height_members [] = 0"
| "height_members ((k, v) # kvs) = Suc (max (height v) (height_members kvs))"

text \<open>What follows a value in the text that \<open>json_dumps\<close> writes.\<close>

definition delimited :: "string \<Rightarrow> bool" where
  "delimited rest =
     (rest = [] \<or> hd rest = CHR '','' \<or> hd rest = CHR ''}'' \<or> hd rest = CHR '']'')"

text \<open>The first character of a value decides how the scanner reads it.\<close>

definition value_start :: "char \<Rightarrow> bool" where
  "value_start c =
     (is_digit c \<or> c = CHR ''-'' \<or> c = quote \<or> c = CHR ''{'' \<or> c = CHR ''[''
      \<or> c = CHR ''n'' \<or> c = CHR ''t'' \<or> c = CHR ''f'')"

text \<open>
  A flat record is an object with distinct keys whose values are strings, integers of at
  most 4300 digits, booleans or null. A token set as the data model has it is a flat
  record with the strings \<^verbatim>\<open>access_token\<close>, \<^verbatim>\<open>refresh_token\<close> and \<^verbatim>\<open>token_type\<close> and the
  integer \<^verbatim>\<open>expires_in\<close> among its fields.
\<close>

fun scalar :: "json \<Rightarrow> bool" where
  "scalar (JArr xs) = False"
| "scalar (JObj kvs) = False"
| "scalar v = wf_json v"

fun flat_record :: "json \<Rightarrow> bool" where
  "flat_record (JObj kvs) = (distinct (map fst kvs) \<and> list_all (\<lambda>(k, v). scalar v) kvs)"
| "flat_record _ = False"

fun is_str :: "json option \<Rightarrow> bool" where
  "is_str (Some (JStr s)) = True"
| "is_str _ = False"

fun is_int :: "json option \<Rightarrow> bool" where
  "is_int (Some (JInt n)) = True"
| "is_int _ = False"

fun token_set :: "json \<Rightarrow> bool" where
  "token_set (JObj kvs) =
     (flat_record (JObj kvs)
      \<and> is_str (map_of kvs ''access_token'') \<and> is_str (map_of kvs ''refresh_token'')
      \<and> is_str (map_of kvs ''token_type'') \<and> is_int (map_of kvs ''expires_in''))"
| "token_set _ = False"

subsection \<open>Test doubles\<close>

text \<open>
  A JSON library given by a finite table of documents, the environment and the token set
  of the repository's tests, and a provider whose token endpoint answers every request
  with an access token and no refresh token.
\<close>

definition table_dumps :: "(json \<times> string) list \<Rightarrow> json \<Rightarrow> string" where
  "table_dumps docs t = (case map_of docs t of None \<Rightarrow> ''null'' | Some s \<Rightarrow> s)"

definition table_loads :: "(json \<times> string) list \<Rightarrow> string \<Rightarrow> error + json" where
  "table_loads docs s =
     (case map_of (map (\<lambda>(t, s). (s, t)) docs) s of
        None \<Rightarrow> Inl JSONDecodeError
      | Some t \<Rightarrow> Inr t)"

definition test_environ :: "string \<Rightarrow> string option" where
  "test_environ =
     [''SPOTIFY_CLIENT_ID'' \<mapsto> ''test-id'', ''SPOTIFY_CLIENT_SECRET'' \<mapsto> ''test-secret'']"

definition stored_tokens :: json where
  "stored_tokens = JObj [(''access_token'', JStr ''abc''), (''refresh_token'', JStr ''xyz'')]"

definition refresh_answer :: json where
  "refresh_answer = JObj [(''access_token'', JStr ''new'')]"

definition refreshed_tokens :: json where
  "refreshed_tokens = JObj [(''access_token'', JStr ''new''), (''refresh_token'', JStr ''xyz'')]"

definition timed_tokens :: json where
  "timed_tokens =
     JObj [(''access_token'', JStr ''abc''), (''refresh_token'', JStr ''xyz''),
           (''expires_in'', JInt 3600)]"

definition test_docs :: "(json \<times> string) list" where
  "test_docs =
     [(stored_tokens, ''stored''), (refresh_answer, ''answer''),
      (refreshed_tokens, ''refreshed''), (timed_tokens, ''timed'')]"

definition test_ext :: "nat \<Rightarrow> redirect \<Rightarrow> ext" where
  "test_ext probe_status r =
     \<lparr>dumps = table_dumps test_docs, loads = table_loads test_docs,
      post_token = (\<lambda>req cred. Response 200 ''answer''),
      get_me = (\<lambda>bearer. Response probe_status []),
      redirect = r, pct_decode = (\<lambda>s. s)\<rparr>"

definition first_run :: world where
  "first_run =
     \<lparr>environ = test_environ, token_file = None, auth_code = None, port_free = True,
      trace = []\<rparr>"

definition later_run :: world where
  "later_run =
     \<lparr>environ = test_environ, token_file = Some ''stored'', auth_code = None,
      port_free = True, trace = []\<rparr>"

definition timed_run :: world where
  "timed_run =
     \<lparr>environ = test_environ, token_file = Some ''timed'', auth_code = None,
      port_free = True, trace = [ProbeGet (JStr ''abc'')]\<rparr>"

definition unconfigured :: world where
  "unconfigured =
     \<lparr>environ = Map.empty, token_file = Some ''stored'', auth_code = None,
      port_free = True, trace = []\<rparr>"

definition denied :: string where
  "denied = ''error=access_denied''"

definition granted :: string where
  "granted = ''code=ABC123''"

text \<open>The surroundings of the tests with the JSON library itself, and a full token set.\<close>

definition json_ext :: ext where
  "json_ext = (test_ext 200 NoRequest)\<lparr>dumps := json_dumps, loads := json_loads\<rparr>"

definition full_tokens :: json where
  "full_tokens =
     JObj [(''access_token'', JStr ''abc''), (''token_type'', JStr ''Bearer''),
           (''expires_in'', JInt 3600), (''refresh_token'', JStr ''xyz''),
           (''scope'', JStr ''user-read-currently-playing'')]"

text \<open>The text \<^verbatim>\<open>{"access_token": "abc", "refresh_token": "xyz"}\<close>.\<close>

definition stored_text :: string where
  "stored_text =
     ''{'' @ quote # ''access_token'' @ quote # '': '' @ quote # ''abc'' @ quote # '', ''
     @ quote # ''refresh_token'' @ quote # '': '' @ quote # ''xyz'' @ quote # ''}''"

lemmas qs_defs = parse_qs_def parse_qsl_def parse_field_def split_first_def unquote_def
  plus_to_space_def

lemmas test_defs = test_environ_def stored_tokens_def refresh_answer_def refreshed_tokens_def
  timed_tokens_def test_docs_def test_ext_def first_run_def later_run_def timed_run_def
  unconfigured_def table_dumps_def table_loads_def

section \<open>Properties\<close>

subsection \<open>Auxiliary facts\<close>

lemma trace_emit [simp]: "trace (emit evs w) = trace w @ evs"
  and token_file_emit [simp]: "token_file (emit evs w) = token_file w"
  and environ_emit [simp]: "environ (emit evs w) = environ w"
  and auth_code_emit [simp]: "auth_code (emit evs w) = auth_code w"
  and port_free_emit [simp]: "port_free (emit evs w) = port_free w"
  by (simp_all add: emit_def)

lemma get_credentials_emit [simp]: "get_credentials (emit evs w) = get_credentials w"
  by (simp add: get_credentials_def split: option.split)

lemma get_credentials_missing:
  "environ w ''SPOTIFY_CLIENT_ID'' = None \<or> environ w ''SPOTIFY_CLIENT_SECRET'' = None
   \<Longrightarrow> get_credentials w = Inl missing_credentials"
  by (auto simp: get_credentials_def split: option.splits)

lemma save_tokens_simps [simp]:
  "token_file (save_tokens x t w) = Some (dumps x t)"
  "trace (save_tokens x t w) = trace w @ [FileTruncated, FileWritten (dumps x t)]"
  "environ (save_tokens x t w) = environ w"
  "auth_code (save_tokens x t w) = auth_code w"
  "port_free (save_tokens x t w) = port_free w"
  by (simp_all add: save_tokens_def write_text_def write_text_states_def)

lemma test_credentials:
  "get_credentials first_run = Inr (''test-id'', ''test-secret'')"
  "get_credentials later_run = Inr (''test-id'', ''test-secret'')"
  "get_credentials timed_run = Inr (''test-id'', ''test-secret'')"
  by (simp_all add: get_credentials_def test_defs)

lemma test_port_free:
  "port_free first_run" "port_free later_run" "port_free timed_run" "port_free unconfigured"
  by (simp_all add: test_defs)

lemma load_tokens_emit [simp]: "load_tokens x (emit evs w) = load_tokens x w"
  by (simp add: load_tokens_def)

lemma test_load:
  "load_tokens (test_ext st r) later_run = Inr (Some stored_tokens)"
  "load_tokens (test_ext st r) timed_run = Inr (Some timed_tokens)"
  by (simp_all add: load_tokens_def test_defs)

lemma refresh_trace:
  assumes "get_credentials w = Inr cred"
  shows "filter is_token_post (trace (snd (refresh_access_token x r w)))
           = filter is_token_post (trace w) @ [TokenPost (RefreshToken r) cred]"
    and "filter is_authorization_event (trace (snd (refresh_access_token x r w)))
           = filter is_authorization_event (trace w)"
  using assms
  by (cases cred; simp add: refresh_access_token_def Let_def
        split: http_result.split sum.split bool.split)+

lemma listen_trace:
  "trace (listen x cid w) =
     trace w @ [SocketBound, ThreadStarted, BrowserOpened (authorize_params cid)]
     @ (case redirect x of
          NoRequest \<Rightarrow> [JoinTimedOut]
        | Request qs \<Rightarrow>
            (case do_GET x qs None of
               Inl e \<Rightarrow> [ThreadFinished, JoinReturned]
             | Inr ((st, body), ac) \<Rightarrow> [RequestAnswered st body, ThreadFinished, JoinReturned]))
     @ [ServerCloseCalled]"
  by (simp add: listen_def Let_def split: redirect.split sum.split prod.split)

lemma listen_auth_code:
  "auth_code (listen x cid w) =
     (case redirect x of
        NoRequest \<Rightarrow> None
      | Request qs \<Rightarrow> (case do_GET x qs None of Inl e \<Rightarrow> None | Inr (resp, ac) \<Rightarrow> ac))"
  by (simp add: listen_def Let_def split: redirect.split sum.split prod.split)

lemma listen_port_free: "port_free (listen x cid w) = (redirect x \<noteq> NoRequest)"
  by (simp add: listen_def Let_def split: redirect.split sum.split prod.split)

lemma listen_frame [simp]:
  "environ (listen x cid w) = environ w" "token_file (listen x cid w) = token_file w"
  by (simp_all add: listen_def Let_def split: redirect.split sum.split prod.split)

lemma do_GET_no_code:
  "parse_qs x qs ''code'' = None
   \<Longrightarrow> (case do_GET x qs ac of Inl e \<Rightarrow> ac | Inr (resp, ac') \<Rightarrow> ac') = ac"
  by (simp add: do_GET_def split: option.split list.split)

lemma closed_unjoined_filter:
  "closed_unjoined running (filter is_listener_event es) = closed_unjoined running es"
  by (induction running es rule: closed_unjoined.induct) simp_all

lemma authorize_extends_trace: "\<exists>evs. trace (snd (authorize x w)) = trace w @ evs"
  by (simp add: authorize_def Let_def listen_trace
      split: sum.split prod.split option.split http_result.split)

lemma authorize_listener_events:
  "filter is_listener_event (authorize_events x w) =
     (case get_credentials w of
        Inl e \<Rightarrow> []
      | Inr cred \<Rightarrow>
          if \<not> port_free w then []
          else [SocketBound, ThreadStarted]
               @ (case redirect x of NoRequest \<Rightarrow> [] | Request q \<Rightarrow> [ThreadFinished])
               @ [ServerCloseCalled])"
proof -
  obtain evs where evs: "trace (snd (authorize x w)) = trace w @ evs"
    using authorize_extends_trace by blast
  have a: "authorize_events x w = evs"
    by (simp add: authorize_events_def evs)
  have "filter is_listener_event (trace (snd (authorize x w))) =
     filter is_listener_event (trace w) @
     (case get_credentials w of
        Inl e \<Rightarrow> []
      | Inr cred \<Rightarrow>
          if \<not> port_free w then []
          else [SocketBound, ThreadStarted]
               @ (case redirect x of NoRequest \<Rightarrow> [] | Request q \<Rightarrow> [ThreadFinished])
               @ [ServerCloseCalled])"
    by (simp add: authorize_def Let_def listen_trace
      split: sum.split prod.split option.split http_result.split redirect.split)
  then show ?thesis
    unfolding a evs by simp
qed

lemma refresh_writes_only_on_success:
  assumes "filter is_file_event (trace (snd (refresh_access_token x r w)))
             \<noteq> filter is_file_event (trace w)"
  shows "\<exists>cred st body. get_credentials w = Inr cred
           \<and> post_token x (RefreshToken r) cred = Response st body \<and> is_success st"
  using assms
  by (auto simp: refresh_access_token_def Let_def
       split: sum.splits prod.splits http_result.splits if_splits bool.splits)

lemma authorize_writes_only_on_success:
  assumes "filter is_file_event (trace (snd (authorize x w))) \<noteq> filter is_file_event (trace w)"
  shows "\<exists>code cred st body. get_credentials w = Inr cred
           \<and> post_token x (AuthorizationCode code REDIRECT_URI) cred = Response st body
           \<and> is_success st"
  using assms
  by (auto simp: authorize_def Let_def listen_trace
       split: sum.splits prod.splits http_result.splits if_splits option.splits redirect.splits)

lemma snd_authorize_first: "snd (authorize_first x w) = snd (authorize x w)"
  by (simp add: authorize_first_def split: prod.split sum.split)

lemma snd_case_result:
  "snd (case p of (Inl e, w2) \<Rightarrow> (Inl e, w2) | (Inr t, w2) \<Rightarrow> (f t, w2)) = snd p"
  by (simp split: prod.split sum.split)

lemma get_access_token_cases:
  "snd (get_access_token x w) = snd (authorize x w)
   \<or> filter is_file_event (trace (snd (get_access_token x w))) = filter is_file_event (trace w)
   \<or> (\<exists>r b. snd (get_access_token x w) = snd (refresh_access_token x r (emit [ProbeGet b] w)))"
  unfolding get_access_token_def Let_def
  by (simp add: snd_authorize_first snd_case_result
        split: sum.split option.split http_result.split) blast

lemma split_on_none: "sep \<notin> set s \<Longrightarrow> split_on sep s = [s]"
  by (induction s) auto

lemma split_at_first:
  "sep \<notin> set name \<Longrightarrow> takeWhile (\<lambda>c. c \<noteq> sep) (name @ sep # v) = name"
  "sep \<notin> set name \<Longrightarrow> dropWhile (\<lambda>c. c \<noteq> sep) (name @ sep # v) = sep # v"
  by (induction name) auto

lemma get_credentials_listen [simp]: "get_credentials (listen x cid w) = get_credentials w"
  by (simp add: get_credentials_def split: option.split)

lemma plus_to_space_id: "CHR ''+'' \<notin> set s \<Longrightarrow> plus_to_space s = s"
  by (induction s) (auto simp: plus_to_space_def)

lemma is_ws_simps [simp]:
  "\<not> is_ws quote" "\<not> is_ws CHR ''{''" "\<not> is_ws CHR ''}''" "\<not> is_ws CHR ''[''"
  "\<not> is_ws CHR '']''" "\<not> is_ws CHR '',''" "\<not> is_ws CHR '':''" "is_ws CHR '' ''"
  "\<not> is_ws CHR ''n''" "\<not> is_ws CHR ''t''" "\<not> is_ws CHR ''f''" "\<not> is_ws CHR ''-''"
  by (simp_all add: is_ws_def quote_def)

lemma skip_ws_simps [simp]:
  "skip_ws [] = []"
  "is_ws c \<Longrightarrow> skip_ws (c # s) = skip_ws s"
  "\<not> is_ws c \<Longrightarrow> skip_ws (c # s) = c # s"
  by (simp_all add: skip_ws_def)

lemma hex_value_hex_digit: "n < 16 \<Longrightarrow> hex_value (hex_digit n) = Some n"
proof -
  have "\<forall>n \<in> set [0..<16]. hex_value (hex_digit n) = Some n"
    by (simp add: upt_rec hex_value_def hex_digit_def)
  then show "n < 16 \<Longrightarrow> hex_value (hex_digit n) = Some n"
    by simp
qed

lemma prepend_Inr [simp]: "prepend c (Inr (s, rest)) = Inr (c # s, rest)"
  by (simp add: prepend_def)

lemma scanstring_escape_char:
  "scanstring t = Inr (s, rest) \<Longrightarrow> scanstring (escape_char c @ t) = Inr (c # s, rest)"
proof -
  assume t: "scanstring t = Inr (s, rest)"
  have n: "of_char c div 16 < (16::nat)" "of_char c mod 16 < (16::nat)"
    using nat_of_char_less_256 [of c] by arith+
  have r: "char_of (16 * (of_char c div 16) + of_char c mod (16::nat)) = c"
    by simp
  have z: "hex_value CHR ''0'' = Some 0"
    by (simp add: hex_value_def)
  show ?thesis
    unfolding escape_char_def
    by (simp add: t unescape_def hex_value_hex_digit n r z quote_def backslash_def)
qed

lemma scanstring_escape:
  "scanstring (concat (map escape_char s) @ quote # rest) = Inr (s, rest)"
  by (induction s) (simp_all add: scanstring_escape_char)

lemma digit_char:
  "k < 10 \<Longrightarrow> of_char (digit_char k) = (48 + k :: nat)"
  "k < 10 \<Longrightarrow> is_digit (digit_char k)"
  "0 < k \<Longrightarrow> k < 10 \<Longrightarrow> digit_char k \<noteq> CHR ''0''"
  "k < 10 \<Longrightarrow> digit_char k \<noteq> CHR ''-''"
  "digit_char 0 = CHR ''0''"
proof -
  have a: "\<forall>k \<in> set [0..<10]. of_char (digit_char k) = (48 + k :: nat)
            \<and> (0 < k \<longrightarrow> digit_char k \<noteq> CHR ''0'') \<and> digit_char k \<noteq> CHR ''-''"
    by (simp add: upt_rec digit_char_def)
  then show "k < 10 \<Longrightarrow> of_char (digit_char k) = (48 + k :: nat)"
    and "0 < k \<Longrightarrow> k < 10 \<Longrightarrow> digit_char k \<noteq> CHR ''0''"
    and "k < 10 \<Longrightarrow> digit_char k \<noteq> CHR ''-''"
    by simp_all
  with a show "k < 10 \<Longrightarrow> is_digit (digit_char k)"
    by (simp add: is_digit_def)
  show "digit_char 0 = CHR ''0''"
    by (simp add: digit_char_def)
qed

lemma digits_not_empty: "digits n \<noteq> []"
  by (subst digits.simps) simp

lemma digits_are_digits: "c \<in> set (digits n) \<Longrightarrow> is_digit c"
proof (induction n rule: digits.induct)
  case (1 n)
  then show ?case
    by (subst (asm) digits.simps) (auto simp: digit_char split: if_splits)
qed

lemma hd_digits: "hd (digits n) \<noteq> CHR ''-'' \<and> (0 < n \<longrightarrow> hd (digits n) \<noteq> CHR ''0'')"
proof (induction n rule: digits.induct)
  case (1 n)
  show ?case
  proof (cases "n < 10")
    case True
    then show ?thesis
      by (subst digits.simps, subst (2) digits.simps) (simp add: digit_char)
  next
    case False
    then have "0 < n div 10"
      by simp
    with 1 False show ?thesis
      by (subst digits.simps, subst (2) digits.simps) (simp add: digits_not_empty)
  qed
qed

lemma digits_value_digits: "digits_value (digits n) = n"
proof (induction n rule: digits.induct)
  case (1 n)
  show ?case
  proof (cases "n < 10")
    case True
    then show ?thesis
      by (subst digits.simps) (simp add: digits_value_def digit_char)
  next
    case False
    with 1 have "digits_value (digits (n div 10)) = n div 10"
      by simp
    with False show ?thesis
      by (subst digits.simps) (simp add: digits_value_def digit_char)
  qed
qed

lemma delimited_no_number:
  "delimited rest \<Longrightarrow> \<not> float_follows rest \<and> takeWhile is_digit rest = []"
  by (cases rest) (auto simp: delimited_def float_follows_def is_digit_def)

lemma match_int_digits:
  assumes "delimited rest"
  shows "match_int (digits n @ rest) = Some (digits n, rest)"
proof -
  have t: "takeWhile is_digit (digits n @ rest) = digits n"
    "dropWhile is_digit (digits n @ rest) = rest"
    using delimited_no_number [OF assms] digits_are_digits [of _ n]
    by (simp_all add: takeWhile_append2 dropWhile_append2 takeWhile_eq_Nil_iff
          dropWhile_eq_self_iff)
  obtain c cs where d: "digits n = c # cs"
    using digits_not_empty [of n] by (cases "digits n") auto
  have c: "is_digit c"
    using digits_are_digits [of c n] d by simp
  show ?thesis
  proof (cases "n = 0")
    case True
    then show ?thesis
      by (subst (1 2) digits.simps) (simp add: match_int_def digit_char(5))
  next
    case False
    then have "c \<noteq> CHR ''0''"
      using hd_digits [of n] d by simp
    then show ?thesis
      using t c d by (simp add: match_int_def)
  qed
qed

lemma scan_number_show_int:
  assumes "delimited rest" and "length (digits (nat \<bar>n\<bar>)) \<le> 4300"
  shows "scan_number (show_int n @ rest) = Some (Inr (JInt n, rest))"
proof (cases "n < 0")
  case True
  then have a: "nat \<bar>n\<bar> = nat (- n)"
    by simp
  show ?thesis
    using True assms(2) delimited_no_number [OF assms(1)]
    by (simp add: scan_number_def show_int_def match_int_digits [OF assms(1)] a
          digits_value_digits)
next
  case False
  then have a: "nat \<bar>n\<bar> = nat n"
    by simp
  obtain c cs where d: "digits (nat n) = c # cs"
    using digits_not_empty [of "nat n"] by (cases "digits (nat n)") auto
  have "c \<noteq> CHR ''-''"
    using hd_digits [of "nat n"] d by simp
  then have h: "hd (digits (nat n) @ rest) \<noteq> CHR ''-''" "digits (nat n) @ rest \<noteq> []"
    using d by simp_all
  show ?thesis
    using False assms(2) delimited_no_number [OF assms(1)] h
    by (simp add: scan_number_def show_int_def match_int_digits [OF assms(1)] a
          digits_value_digits)
qed

lemma dict_distinct_aux:
  "distinct (map fst kvs) \<Longrightarrow> fst ` set acc \<inter> fst ` set kvs = {}
   \<Longrightarrow> foldl (\<lambda>d (k, v). AList.update k v d) acc kvs = acc @ kvs"
proof (induction kvs arbitrary: acc)
  case Nil
  then show ?case
    by simp
next
  case (Cons p kvs)
  obtain k v where p: "p = (k, v)"
    by (cases p)
  have u: "AList.update k v acc = acc @ [(k, v)]"
    using Cons.prems(2) p by (induction acc) auto
  have "fst ` set (acc @ [(k, v)]) \<inter> fst ` set kvs = {}"
    using Cons.prems p by auto
  with Cons.IH [of "acc @ [(k, v)]"] Cons.prems(1) show ?case
    by (simp add: p u)
qed

lemma dict_distinct: "distinct (map fst kvs) \<Longrightarrow> dict kvs = kvs"
  using dict_distinct_aux [of kvs "[]"] by (simp add: dict_def)

lemma show_int_start:
  "\<exists>c cs. show_int n = c # cs \<and> (is_digit c \<or> c = CHR ''-'')"
proof -
  obtain c cs where d: "digits (nat \<bar>n\<bar>) = c # cs"
    using digits_not_empty [of "nat \<bar>n\<bar>"] by (cases "digits (nat \<bar>n\<bar>)") auto
  then have "is_digit c"
    using digits_are_digits [of c "nat \<bar>n\<bar>"] by simp
  then show ?thesis
    using d by (cases "n < 0") (auto simp: show_int_def)
qed

lemma json_dumps_start: "\<exists>c cs. json_dumps v = c # cs \<and> value_start c"
proof (cases v)
  case (JInt n)
  then show ?thesis
    using show_int_start [of n] by (auto simp: value_start_def)
qed (auto simp: value_start_def encode_str_def)

lemma value_start_not:
  "value_start c \<Longrightarrow> \<not> is_ws c \<and> c \<noteq> CHR '']'' \<and> c \<noteq> CHR ''}'' \<and> c \<noteq> CHR '',''"
  by (auto simp: value_start_def is_ws_def is_digit_def quote_def)

lemma parse_scalar:
  "parse_value (Suc n) (''null'' @ rest) = Inr (JNull, rest)"
  "parse_value (Suc n) (''true'' @ rest) = Inr (JBool True, rest)"
  "parse_value (Suc n) (''false'' @ rest) = Inr (JBool False, rest)"
  "parse_value (Suc n) (encode_str s @ rest) = Inr (JStr s, rest)"
  by (simp_all add: quote_def encode_str_def scanstring_escape [unfolded quote_def])

lemma parse_int:
  assumes "delimited rest" and "length (digits (nat \<bar>i\<bar>)) \<le> 4300"
  shows "parse_value (Suc n) (show_int i @ rest) = Inr (JInt i, rest)"
proof -
  obtain c cs where s: "show_int i = c # cs" and c: "is_digit c \<or> c = CHR ''-''"
    using show_int_start [of i] by blast
  have n: "c \<noteq> quote" "c \<noteq> CHR ''{''" "c \<noteq> CHR ''[''" "c \<noteq> CHR ''n''" "c \<noteq> CHR ''t''"
    "c \<noteq> CHR ''f''"
    using c by (auto simp: is_digit_def quote_def)
  have "parse_value (Suc n) (c # cs @ rest) = Inr (JInt i, rest)"
    using n scan_number_show_int [OF assms, unfolded s] by simp
  then show ?thesis
    by (simp add: s)
qed

lemma dumps_items_start:
  "xs \<noteq> [] \<Longrightarrow> \<exists>c cs. dumps_items xs = c # cs \<and> value_start c"
proof (cases xs)
  case Nil
  then show "xs \<noteq> [] \<Longrightarrow> ?thesis"
    by simp
next
  case (Cons x ys)
  obtain c cs where "json_dumps x = c # cs" "value_start c"
    using json_dumps_start [of x] by blast
  then show ?thesis
    using Cons by (cases ys) auto
qed

lemma dumps_members_start:
  "kvs \<noteq> [] \<Longrightarrow> \<exists>cs. dumps_members kvs = quote # cs"
proof (cases kvs)
  case Nil
  then show "kvs \<noteq> [] \<Longrightarrow> ?thesis"
    by simp
next
  case (Cons p ps)
  then show ?thesis
    by (cases p; cases ps) (auto simp: encode_str_def)
qed

lemma skip_ws_value:
  "value_start c \<Longrightarrow> skip_ws (c # cs) = c # cs"
  "value_start c \<Longrightarrow> skip_ws (CHR '' '' # c # cs) = c # cs"
  using value_start_not [of c] by simp_all

lemma delimited_simps [simp]:
  "delimited []" "delimited (CHR '','' # s)" "delimited (CHR ''}'' # s)"
  "delimited (CHR '']'' # s)"
  by (simp_all add: delimited_def)

lemma parse_written:
  "wf_json v \<Longrightarrow> height v \<le> n \<Longrightarrow> delimited rest
   \<Longrightarrow> parse_value n (json_dumps v @ rest) = Inr (v, rest)"
  "xs \<noteq> [] \<Longrightarrow> wf_items xs \<Longrightarrow> height_items xs \<le> n
   \<Longrightarrow> parse_items n (dumps_items xs @ CHR '']'' # rest) = Inr (xs, rest)"
  "kvs \<noteq> [] \<Longrightarrow> wf_members kvs \<Longrightarrow> height_members kvs \<le> n
   \<Longrightarrow> parse_members n (tl (dumps_members kvs) @ CHR ''}'' # rest) = Inr (kvs, rest)"
proof (induction v and xs and kvs arbitrary: n rest and n rest and n rest
    rule: json_dumps_dumps_items_dumps_members.induct)
  case 1
  then obtain m where "n = Suc m"
    by (cases n) simp_all
  then show ?case
    by (simp only: json_dumps.simps parse_scalar)
next
  case (2 b)
  then obtain m where "n = Suc m"
    by (cases n) simp_all
  then show ?case
    by (cases b) (simp_all only: json_dumps.simps parse_scalar if_True if_False)
next
  case (3 i)
  then obtain m where "n = Suc m"
    by (cases n) simp_all
  then show ?case
    using 3 by (simp only: json_dumps.simps parse_int wf_json.simps)
next
  case (4 s)
  then obtain m where "n = Suc m"
    by (cases n) simp_all
  then show ?case
    by (simp only: json_dumps.simps parse_scalar)
next
  case (5 xs)
  from 5(3) obtain m where n: "n = Suc m" and m: "height_items xs \<le> m"
    by (cases n) simp_all
  show ?case
  proof (cases "xs = []")
    case True
    then show ?thesis
      by (simp add: n quote_def)
  next
    case False
    obtain c cs where s: "dumps_items xs = c # cs" and c: "value_start c"
      using dumps_items_start [OF False] by blast
    have "parse_items m (c # cs @ CHR '']'' # rest) = Inr (xs, rest)"
      using 5(1) [OF False _ m, of rest] 5(2) by (simp add: s)
    then show ?thesis
      using value_start_not [OF c] by (simp add: n s quote_def skip_ws_value [OF c])
  qed
next
  case (6 kvs)
  from 6(3) obtain m where n: "n = Suc m" and m: "height_members kvs \<le> m"
    by (cases n) simp_all
  have d: "dict kvs = kvs"
    using 6(2) by (simp add: dict_distinct)
  show ?case
  proof (cases "kvs = []")
    case True
    then show ?thesis
      by (simp add: n quote_def)
  next
    case False
    obtain cs where s: "dumps_members kvs = quote # cs"
      using dumps_members_start [OF False] by blast
    have "parse_members m (cs @ CHR ''}'' # rest) = Inr (kvs, rest)"
      using 6(1) [OF False _ m, of rest] 6(2) by (simp add: s)
    then show ?thesis
      by (simp add: n s d) (simp add: quote_def)
  qed
next
  case 7
  then show ?case
    by simp
next
  case (8 x)
  from 8(4) obtain m where n: "n = Suc m" and m: "height x \<le> m"
    by (cases n) simp_all
  have "parse_value m (json_dumps x @ CHR '']'' # rest) = Inr (x, CHR '']'' # rest)"
    using 8(1) [OF _ m, of "CHR '']'' # rest"] 8(3) by simp
  then show ?case
    by (simp add: n)
next
  case (9 x y xs)
  from 9(5) obtain m where n: "n = Suc m" and m: "height x \<le> m" "height_items (y # xs) \<le> m"
    by (cases n) simp_all
  obtain c cs where s: "dumps_items (y # xs) = c # cs" and c: "value_start c"
    using dumps_items_start [of "y # xs"] by blast
  have a: "parse_value m (json_dumps x @ CHR '','' # CHR '' '' # c # cs @ CHR '']'' # rest)
             = Inr (x, CHR '','' # CHR '' '' # c # cs @ CHR '']'' # rest)"
    using 9(1) [OF _ m(1), of "CHR '','' # CHR '' '' # c # cs @ CHR '']'' # rest"] 9(4)
    by simp
  have b: "parse_items m (c # cs @ CHR '']'' # rest) = Inr (y # xs, rest)"
    using 9(2) [OF _ _ m(2), of rest] 9(4) by (simp add: s)
  show ?case
    using a b by (simp add: n s skip_ws_value [OF c])
next
  case 10
  then show ?case
    by simp
next
  case (11 k v)
  from 11(4) obtain m where n: "n = Suc m" and m: "height v \<le> m"
    by (cases n) simp_all
  obtain c cs where s: "json_dumps v = c # cs" and c: "value_start c"
    using json_dumps_start [of v] by blast
  have "parse_value m (c # cs @ CHR ''}'' # rest) = Inr (v, CHR ''}'' # rest)"
    using 11(1) [OF _ m, of "CHR ''}'' # rest"] 11(3) by (simp add: s)
  then show ?case
    by (simp add: n encode_str_def scanstring_escape s skip_ws_value [OF c])
next
  case (12 k v p kvs)
  from 12(5) obtain m where n: "n = Suc m" and m: "height v \<le> m" "height_members (p # kvs) \<le> m"
    by (cases n) simp_all
  obtain c cs where s: "json_dumps v = c # cs" and c: "value_start c"
    using json_dumps_start [of v] by blast
  obtain ms where t: "dumps_members (p # kvs) = quote # ms"
    using dumps_members_start [of "p # kvs"] by blast
  have a: "parse_value m (c # cs @ CHR '','' # CHR '' '' # quote # ms @ CHR ''}'' # rest)
             = Inr (v, CHR '','' # CHR '' '' # quote # ms @ CHR ''}'' # rest)"
    using 12(1) [OF _ m(1), of "CHR '','' # CHR '' '' # quote # ms @ CHR ''}'' # rest"] 12(4)
    by (simp add: s)
  have b: "parse_members m (ms @ CHR ''}'' # rest) = Inr ((p # kvs), rest)"
    using 12(2) [OF _ _ m(2), of rest] 12(4) by (simp add: t)
  have e: "dumps_members ((k, v) # p # kvs)
             = encode_str k @ CHR '':'' # CHR '' '' # c # cs @ CHR '','' # CHR '' '' # quote # ms"
    by (simp add: s t)
  show ?case
    unfolding e using a b
    by (simp add: n encode_str_def scanstring_escape skip_ws_value [OF c])
qed

lemma height_le_length:
  "height v \<le> length (json_dumps v)"
  "height_items xs \<le> Suc (length (dumps_items xs))"
  "height_members kvs \<le> Suc (length (dumps_members kvs))"
proof (induction v and xs and kvs rule: json_dumps_dumps_items_dumps_members.induct)
  case (3 n)
  then show ?case
    using digits_not_empty [of "nat n"] digits_not_empty [of "nat (- n)"]
    by (simp add: show_int_def Suc_le_eq)
qed (simp_all add: encode_str_def)

lemma json_loads_dumps:
  assumes "wf_json v"
  shows "json_loads (json_dumps v) = Inr v"
proof -
  obtain c cs where s: "json_dumps v = c # cs" and c: "value_start c"
    using json_dumps_start [of v] by blast
  have h: "height v \<le> Suc (2 * length (json_dumps v))"
    using height_le_length(1) [of v] by simp
  have "parse_value (Suc (2 * length (json_dumps v))) (json_dumps v @ []) = Inr (v, [])"
    using assms h by (rule parse_written(1)) simp
  then show ?thesis
    using skip_ws_value(1) [OF c, of cs] by (simp add: json_loads_def s)
qed

lemma scalar_wf: "scalar v \<Longrightarrow> wf_json v"
  by (cases v) simp_all

lemma flat_record_wf: "flat_record t \<Longrightarrow> wf_json t"
proof (cases t)
  case (JObj kvs)
  assume "flat_record t"
  then have d: "distinct (map fst kvs)" and a: "list_all (\<lambda>(k, v). scalar v) kvs"
    using JObj by simp_all
  from a have "wf_members kvs"
    by (induction kvs) (auto simp: scalar_wf)
  with d JObj show ?thesis
    by simp
qed simp_all

lemma prepend_rest:
  "prepend c r = Inr (s, rest) \<Longrightarrow> \<exists>s'. r = Inr (s', rest)"
  by (auto simp: prepend_def split: sum.splits)

lemma scanstring_shorter:
  "scanstring s = Inr (k, rest) \<Longrightarrow> length rest < length s"
proof (induction s arbitrary: k rule: length_induct)
  case (1 s)
  then have ih: "\<And>t k'. length t < length s \<Longrightarrow> scanstring t = Inr (k', rest)
                   \<Longrightarrow> length rest < length t"
    by blast
  show ?case
  proof (cases s)
    case Nil
    with 1(2) show ?thesis
      by simp
  next
    case (Cons c cs)
    have "length rest < Suc (length cs)"
      using 1(2) ih unfolding Cons
      by (fastforce simp: less_Suc_eq dest!: prepend_rest
            split: if_splits list.splits option.splits prod.splits)
    then show ?thesis
      by (simp add: Cons)
  qed
qed

lemma skip_ws_length: "length (skip_ws s) \<le> length s"
  by (simp add: skip_ws_def length_dropWhile_le)

lemma skip_ws_Cons: "skip_ws s = d # rest \<Longrightarrow> length rest < length s"
  using skip_ws_length [of s] by simp

lemma match_int_shorter: "match_int t = Some (ds, r) \<Longrightarrow> length r < length t"
  using length_dropWhile_le [of is_digit "tl t"]
  by (cases t) (auto simp: match_int_def split: if_splits)

lemma scan_number_shorter:
  assumes "scan_number s = Some (Inr (v, rest))"
  shows "length rest < length s"
proof -
  let ?b = "if s \<noteq> [] \<and> hd s = CHR ''-'' then tl s else s"
  from assms obtain ds where "match_int ?b = Some (ds, rest)"
    by (auto simp: scan_number_def Let_def split: option.splits if_splits)
  then have "length rest < length ?b"
    by (rule match_int_shorter)
  then show ?thesis
    by (cases s) (auto split: if_splits)
qed

lemma items_step:
  assumes "parse_items (Suc n) s = Inr (vs, rest)"
  obtains v r1 d r2 where "parse_value n s = Inr (v, r1)" "skip_ws r1 = d # r2"
    "(d = CHR '']'' \<and> rest = r2 \<and> vs = [v])
     \<or> (d = CHR '','' \<and> (\<exists>vs'. parse_items n (skip_ws r2) = Inr (vs', rest) \<and> vs = v # vs'))"
  using assms
  by (simp split: sum.splits prod.splits list.splits if_splits)

lemma members_step:
  assumes "parse_members (Suc n) s = Inr (ps, rest)"
  obtains k r0 r1 v r2 d r3 where "scanstring s = Inr (k, r0)" "skip_ws r0 = CHR '':'' # r1"
    "parse_value n (skip_ws r1) = Inr (v, r2)" "skip_ws r2 = d # r3"
    "(d = CHR ''}'' \<and> rest = r3 \<and> ps = [(k, v)])
     \<or> (d = CHR '','' \<and> (\<exists>r4 ps'. skip_ws r3 = quote # r4
           \<and> parse_members n r4 = Inr (ps', rest) \<and> ps = (k, v) # ps'))"
  using assms
  by (simp split: sum.splits prod.splits list.splits if_splits)

lemma value_step:
  assumes "parse_value (Suc n) s = Inr (v, rest)"
  shows "(\<exists>k. scanstring (tl s) = Inr (k, rest))
       \<or> (\<exists>d. skip_ws (tl s) = d # rest)
       \<or> (\<exists>r. skip_ws (tl s) = quote # r \<and> (\<exists>ps. parse_members n r = Inr (ps, rest)))
       \<or> (\<exists>xs. parse_items n (skip_ws (tl s)) = Inr (xs, rest))
       \<or> (s \<noteq> [] \<and> rest = drop 4 s) \<or> (s \<noteq> [] \<and> rest = drop 5 s)
       \<or> scan_number s = Some (Inr (v, rest))"
  using assms
  by (cases s) (auto split: sum.splits prod.splits list.splits if_splits option.splits)

lemma parse_shorter:
  "parse_value n s = Inr (v, rest) \<Longrightarrow> length rest < length s"
  "parse_items n s = Inr (vs, rest) \<Longrightarrow> length rest < length s"
  "parse_members n s = Inr (ps, rest) \<Longrightarrow> length rest < length s"
proof (induction n arbitrary: s v vs ps rest)
  case 0
  {
    case 1
    then show ?case by simp
  next
    case 2
    then show ?case by simp
  next
    case 3
    then show ?case by simp
  }
next
  case (Suc n)
  {
    case 1
    have t: "length (skip_ws (tl s)) \<le> length s"
      using skip_ws_length [of "tl s"] by simp
    have ne: "s \<noteq> []"
      using 1 by auto
    then have l: "length (tl s) < length s"
      by simp
    from value_step [OF 1] show ?case
    proof (elim disjE exE conjE)
      fix k assume "scanstring (tl s) = Inr (k, rest)"
      from scanstring_shorter [OF this] l show ?thesis by simp
    next
      fix d assume "skip_ws (tl s) = d # rest"
      from skip_ws_Cons [OF this] l show ?thesis by simp
    next
      fix r ps assume a: "skip_ws (tl s) = quote # r" "parse_members n r = Inr (ps, rest)"
      from Suc.IH(3) [OF a(2)] skip_ws_Cons [OF a(1)] l show ?thesis by simp
    next
      fix xs assume "parse_items n (skip_ws (tl s)) = Inr (xs, rest)"
      from Suc.IH(2) [OF this] t show ?thesis by simp
    next
      assume "rest = drop 4 s" then show ?thesis using ne by simp
    next
      assume "rest = drop 5 s" then show ?thesis using ne by simp
    next
      assume "scan_number s = Some (Inr (v, rest))"
      then show ?thesis by (rule scan_number_shorter)
    qed
  next
    case 2
    from 2 obtain v r1 d r2 where a: "parse_value n s = Inr (v, r1)" "skip_ws r1 = d # r2"
    "(d = CHR '']'' \<and> rest = r2 \<and> vs = [v])
     \<or> (d = CHR '','' \<and> (\<exists>vs'. parse_items n (skip_ws r2) = Inr (vs', rest) \<and> vs = v # vs'))"
      by (rule items_step)
    have b: "length r1 < length s" "length r2 < length r1"
      using Suc.IH(1) [OF a(1)] skip_ws_Cons [OF a(2)] by simp_all
    from a(3) show ?case
    proof (elim disjE exE conjE)
      assume "rest = r2" then show ?thesis using b by simp
    next
      fix vs' assume "parse_items n (skip_ws r2) = Inr (vs', rest)"
      from Suc.IH(2) [OF this] skip_ws_length [of r2] b show ?thesis by simp
    qed
  next
    case 3
    from 3 obtain k r0 r1 v r2 d r3 where a: "scanstring s = Inr (k, r0)"
      "skip_ws r0 = CHR '':'' # r1"
      "parse_value n (skip_ws r1) = Inr (v, r2)" "skip_ws r2 = d # r3"
      "(d = CHR ''}'' \<and> rest = r3 \<and> ps = [(k, v)])
       \<or> (d = CHR '','' \<and> (\<exists>r4 ps'. skip_ws r3 = quote # r4
           \<and> parse_members n r4 = Inr (ps', rest) \<and> ps = (k, v) # ps'))"
      by (rule members_step)
    have b: "length r0 < length s" "length r1 < length r0" "length r2 < length r1"
      "length r3 < length r2"
      using scanstring_shorter [OF a(1)] skip_ws_Cons [OF a(2)] Suc.IH(1) [OF a(3)]
        skip_ws_length [of r1] skip_ws_Cons [OF a(4)] by simp_all
    from a(5) show ?case
    proof (elim disjE exE conjE)
      assume "rest = r3" then show ?thesis using b by simp
    next
      fix r4 ps' assume c: "skip_ws r3 = quote # r4" "parse_members n r4 = Inr (ps', rest)"
      from Suc.IH(3) [OF c(2)] skip_ws_Cons [OF c(1)] b show ?thesis by simp
    qed
  }
qed

lemma prepend_no_recursion_error:
  "prepend c r = Inl RecursionError \<Longrightarrow> r = Inl RecursionError"
  by (auto simp: prepend_def split: sum.splits)

lemma scanstring_no_recursion_error: "scanstring s \<noteq> Inl RecursionError"
proof (induction s rule: length_induct)
  case (1 s)
  then have ih: "\<And>t. length t < length s \<Longrightarrow> scanstring t \<noteq> Inl RecursionError"
    by blast
  show ?case
  proof (cases s)
    case Nil
    then show ?thesis
      by simp
  next
    case (Cons c cs)
    show ?thesis
      using ih unfolding Cons
      by (fastforce simp: less_Suc_eq dest!: prepend_no_recursion_error
            split: if_splits list.splits option.splits prod.splits)
  qed
qed

lemma scan_number_no_recursion_error: "scan_number s \<noteq> Some (Inl RecursionError)"
  by (simp add: scan_number_def Let_def split: option.split)

lemma value_error_step:
  assumes "parse_value (Suc n) s = Inl RecursionError"
  shows "s \<noteq> [] \<and> ((\<exists>r. skip_ws (tl s) = quote # r \<and> parse_members n r = Inl RecursionError)
       \<or> parse_items n (skip_ws (tl s)) = Inl RecursionError)"
  using assms scanstring_no_recursion_error [of "tl s"] scan_number_no_recursion_error [of s]
  by (cases s) (auto split: sum.splits prod.splits list.splits if_splits option.splits)

lemma items_error_step:
  assumes "parse_items (Suc n) s = Inl RecursionError"
  shows "parse_value n s = Inl RecursionError
       \<or> (\<exists>v r1 r2. parse_value n s = Inr (v, r1) \<and> skip_ws r1 = CHR '','' # r2
             \<and> parse_items n (skip_ws r2) = Inl RecursionError)"
  using assms
  by (auto split: sum.splits prod.splits list.splits if_splits)

lemma members_error_step:
  assumes "parse_members (Suc n) s = Inl RecursionError"
  shows "\<exists>k r0 r1. scanstring s = Inr (k, r0) \<and> skip_ws r0 = CHR '':'' # r1
           \<and> (parse_value n (skip_ws r1) = Inl RecursionError
              \<or> (\<exists>v r2 r3 r4. parse_value n (skip_ws r1) = Inr (v, r2)
                    \<and> skip_ws r2 = CHR '','' # r3 \<and> skip_ws r3 = quote # r4
                    \<and> parse_members n r4 = Inl RecursionError))"
  using assms scanstring_no_recursion_error [of s]
  by (auto split: sum.splits prod.splits list.splits if_splits)

lemma enough_fuel:
  "2 * length s < n \<Longrightarrow> parse_value n s \<noteq> Inl RecursionError"
  "2 * length s + 1 < n \<Longrightarrow> parse_items n s \<noteq> Inl RecursionError"
  "0 < n \<Longrightarrow> 2 * length s \<le> n \<Longrightarrow> parse_members n s \<noteq> Inl RecursionError"
proof (induction n arbitrary: s)
  case 0
  {
    case 1
    then show ?case by simp
  next
    case 2
    then show ?case by simp
  next
    case 3
    then show ?case by simp
  }
next
  case (Suc n)
  {
    case 1
    show ?case
    proof
      assume "parse_value (Suc n) s = Inl RecursionError"
      from value_error_step [OF this] have ne: "s \<noteq> []"
        and d: "(\<exists>r. skip_ws (tl s) = quote # r \<and> parse_members n r = Inl RecursionError)
                \<or> parse_items n (skip_ws (tl s)) = Inl RecursionError"
        by simp_all
      have l: "Suc (length (tl s)) = length s"
        using ne by simp
      from d show False
      proof (elim disjE exE conjE)
        fix r assume a: "skip_ws (tl s) = quote # r" "parse_members n r = Inl RecursionError"
        have "0 < n" "2 * length r \<le> n"
          using skip_ws_Cons [OF a(1)] l 1 by simp_all
        from Suc.IH(3) [OF this] a(2) show False by simp
      next
        assume a: "parse_items n (skip_ws (tl s)) = Inl RecursionError"
        have "2 * length (skip_ws (tl s)) + 1 < n"
          using skip_ws_length [of "tl s"] l 1 by simp
        from Suc.IH(2) [OF this] a show False by simp
      qed
    qed
  next
    case 2
    show ?case
    proof
      assume "parse_items (Suc n) s = Inl RecursionError"
      from items_error_step [OF this] show False
      proof (elim disjE exE conjE)
        assume a: "parse_value n s = Inl RecursionError"
        have "2 * length s < n"
          using 2 by simp
        from Suc.IH(1) [OF this] a show False by simp
      next
        fix v r1 r2 assume a: "parse_value n s = Inr (v, r1)" "skip_ws r1 = CHR '','' # r2"
          "parse_items n (skip_ws r2) = Inl RecursionError"
        have "2 * length (skip_ws r2) + 1 < n"
          using parse_shorter(1) [OF a(1)] skip_ws_Cons [OF a(2)] skip_ws_length [of r2] 2
          by simp
        from Suc.IH(2) [OF this] a(3) show False by simp
      qed
    qed
  next
    case 3
    show ?case
    proof
      assume "parse_members (Suc n) s = Inl RecursionError"
      from members_error_step [OF this] obtain k r0 r1 where
        a: "scanstring s = Inr (k, r0)" "skip_ws r0 = CHR '':'' # r1"
        and d: "parse_value n (skip_ws r1) = Inl RecursionError
              \<or> (\<exists>v r2 r3 r4. parse_value n (skip_ws r1) = Inr (v, r2)
                    \<and> skip_ws r2 = CHR '','' # r3 \<and> skip_ws r3 = quote # r4
                    \<and> parse_members n r4 = Inl RecursionError)"
        by blast
      have b: "length r0 < length s" "length r1 < length r0" "length (skip_ws r1) \<le> length r1"
        using scanstring_shorter [OF a(1)] skip_ws_Cons [OF a(2)] skip_ws_length [of r1]
        by simp_all
      from d show False
      proof (elim disjE exE conjE)
        assume c: "parse_value n (skip_ws r1) = Inl RecursionError"
        have "2 * length (skip_ws r1) < n"
          using b 3 by simp
        from Suc.IH(1) [OF this] c show False by simp
      next
        fix v r2 r3 r4 assume c: "parse_value n (skip_ws r1) = Inr (v, r2)"
          "skip_ws r2 = CHR '','' # r3" "skip_ws r3 = quote # r4"
          "parse_members n r4 = Inl RecursionError"
        have "0 < n" "2 * length r4 \<le> n"
          using b 3 parse_shorter(1) [OF c(1)] skip_ws_Cons [OF c(2)] skip_ws_Cons [OF c(3)]
          by simp_all
        from Suc.IH(3) [OF this] c(4) show False by simp
      qed
    qed
  }
qed

lemma json_loads_no_recursion_error: "json_loads s \<noteq> Inl RecursionError"
proof -
  have "2 * length (skip_ws s) < Suc (2 * length s)"
    using skip_ws_length [of s] by simp
  from enough_fuel(1) [OF this] show ?thesis
    by (auto simp: json_loads_def split: sum.splits prod.splits if_splits)
qed

lemma json_dumps_examples:
  "json_dumps (JArr [JNull, JBool True, JInt (- 42), JObj [], JArr []])
     = ''[null, true, -42, {}, []]''"
  "json_dumps (JStr [quote, backslash, CHR 0x0A, CHR 0xE9, CHR 0x7F])
     = quote # backslash # quote # backslash # backslash # backslash # CHR ''n''
       # backslash # ''u00e9'' @ backslash # ''u007f'' @ [quote]"
  by code_simp+

lemma json_loads_examples:
  "json_loads '' [1 , -0]  '' = Inr (JArr [JInt 1, JInt 0])"
  "json_loads ''[1,]'' = Inl JSONDecodeError"
  "json_loads ''01'' = Inl JSONDecodeError"
  "json_loads ''1.5'' = Inl OutsideModel"
  "json_loads ''[[['' = Inl JSONDecodeError"
  "json_loads (''{'' @ quote # ''a'' @ quote # '':1, '' @ quote # ''b'' @ quote # '':null,''
               @ quote # ''a'' @ quote # '': 2}'')
     = Inr (JObj [(''a'', JInt 2), (''b'', JNull)])"
  "json_loads (quote # backslash # ''u00E9'' @ backslash # ''/'' @ [quote])
     = Inr (JStr [CHR 0xE9, CHR ''/''])"
  by code_simp+

subsection \<open>Refreshing keeps the refresh token\<close>

text \<open>
  C2. Whenever the provider answers the \<^verbatim>\<open>refresh_token\<close> grant for the refresh token \<open>r\<close>
  with a 2xx status and a JSON object that has no \<^verbatim>\<open>refresh_token\<close> field,
  \<open>refresh_access_token\<close> returns that object extended by \<^verbatim>\<open>refresh_token\<close> = \<open>r\<close>, and the
  credential file holds the serialisation of the extended object: the previous refresh
  token is kept.
\<close>

theorem refresh_keeps_refresh_token:
  assumes "get_credentials w = Inr cred"
    and "post_token x (RefreshToken r) cred = Response st body"
    and "is_success st"
    and "loads x body = Inr (JObj kvs)"
    and "''refresh_token'' \<notin> fst ` set kvs"
  shows "fst (refresh_access_token x r w) = Inr (JObj (AList.update ''refresh_token'' r kvs))
       \<and> getitem (JObj (AList.update ''refresh_token'' r kvs)) ''refresh_token'' = Inr r
       \<and> token_file (snd (refresh_access_token x r w))
           = Some (dumps x (JObj (AList.update ''refresh_token'' r kvs)))"
  using assms
  by (cases cred) (simp add: refresh_access_token_def Let_def update_conv')

theorem refresh_keeps_refresh_token_witness:
  "fst (refresh_access_token (test_ext 401 NoRequest) (JStr ''xyz'') later_run)
     = Inr refreshed_tokens
   \<and> getitem refreshed_tokens ''refresh_token'' = Inr (JStr ''xyz'')
   \<and> token_file (snd (refresh_access_token (test_ext 401 NoRequest) (JStr ''xyz'') later_run))
       = Some ''refreshed''"
proof -
  have h1: "get_credentials later_run = Inr (''test-id'', ''test-secret'')"
    by (rule test_credentials)
  have h2: "post_token (test_ext 401 NoRequest) (RefreshToken (JStr ''xyz''))
              (''test-id'', ''test-secret'') = Response 200 ''answer''"
    by (simp add: test_defs)
  have h3: "is_success 200"
    by (simp add: is_success_def)
  have h4: "loads (test_ext 401 NoRequest) ''answer'' = Inr (JObj [(''access_token'', JStr ''new'')])"
    by (simp add: test_defs)
  have h5: "''refresh_token'' \<notin> fst ` set [(''access_token'', JStr ''new'')]"
    by simp
  show ?thesis
    using refresh_keeps_refresh_token [OF h1 h2 h3 h4 h5]
    by (simp add: test_defs)
qed

subsection \<open>Missing client credentials\<close>

text \<open>
  C6. When the client id or the client secret is not in the environment, the
  authorization flow and the refresh exchange both fail with the missing-credentials
  error and leave the surroundings as they were, so that nothing was sent to the token
  endpoint (nor anywhere else); and \<open>get_access_token\<close>, whatever it finds in the
  credential file, adds no request to the token endpoint to the trace: the failed exchange
  is not tried again.
\<close>

theorem missing_credentials_fail_fast:
  assumes "environ w ''SPOTIFY_CLIENT_ID'' = None \<or> environ w ''SPOTIFY_CLIENT_SECRET'' = None"
  shows "authorize x w = (Inl missing_credentials, w)
       \<and> refresh_access_token x r w = (Inl missing_credentials, w)
       \<and> filter is_token_post (trace (snd (get_access_token x w)))
           = filter is_token_post (trace w)"
proof -
  have c: "get_credentials w = Inl missing_credentials"
    using assms by (rule get_credentials_missing)
  have a: "authorize x w = (Inl missing_credentials, w)"
    by (simp add: authorize_def c)
  have r: "\<And>r v. refresh_access_token x r (emit [v] w) = (Inl missing_credentials, emit [v] w)"
    by (simp add: refresh_access_token_def c)
  have r0: "refresh_access_token x r w = (Inl missing_credentials, w)"
    by (simp add: refresh_access_token_def c)
  have g: "filter is_token_post (trace (snd (get_access_token x w)))
             = filter is_token_post (trace w)"
    by (simp add: get_access_token_def authorize_first_def a r Let_def
        split: sum.split option.split http_result.split)
  from a r0 g show ?thesis by simp
qed

theorem missing_credentials_fail_fast_witness:
  "authorize (test_ext 401 NoRequest) unconfigured = (Inl missing_credentials, unconfigured)
   \<and> refresh_access_token (test_ext 401 NoRequest) (JStr ''xyz'') unconfigured
       = (Inl missing_credentials, unconfigured)
   \<and> filter is_token_post (trace (snd (get_access_token (test_ext 401 NoRequest) unconfigured)))
       = []"
proof -
  have h: "environ unconfigured ''SPOTIFY_CLIENT_ID'' = None
         \<or> environ unconfigured ''SPOTIFY_CLIENT_SECRET'' = None"
    by (simp add: unconfigured_def)
  show ?thesis
    using missing_credentials_fail_fast [OF h, of "test_ext 401 NoRequest" "JStr ''xyz''"]
    by (simp add: unconfigured_def)
qed

subsection \<open>The supervisor on any other status\<close>

text \<open>
  C3. Let the credential file hold a JSON object with an access token, and let the probe
  answer with a status other than 401 (200 or not). Then \<open>get_access_token\<close> returns the
  stored access token and its only effect is the probe itself: nothing is sent to the
  token endpoint. The \<^verbatim>\<open>expires_in\<close> field is not consulted: with any other value of that
  field in the stored object, the result and the effect are the same.
\<close>

theorem cached_token_when_not_401:
  assumes "load_tokens x w = Inr (Some (JObj kvs))"
    and "map_of kvs ''access_token'' = Some bearer"
    and "get_me x bearer = Response st body"
    and "st \<noteq> 401"
  shows "get_access_token x w = (Inr bearer, emit [ProbeGet bearer] w)
       \<and> (\<forall>w' v. load_tokens x w' = Inr (Some (JObj (AList.update ''expires_in'' v kvs)))
            \<longrightarrow> get_access_token x w' = (Inr bearer, emit [ProbeGet bearer] w'))"
proof -
  have ne: "kvs \<noteq> []"
    using assms(2) by auto
  have a: "get_access_token x w = (Inr bearer, emit [ProbeGet bearer] w)"
    using assms ne by (simp add: get_access_token_def Let_def)
  have b: "get_access_token x w' = (Inr bearer, emit [ProbeGet bearer] w')"
    if "load_tokens x w' = Inr (Some (JObj (AList.update ''expires_in'' v kvs)))" for w' v
  proof -
    have m: "map_of (AList.update ''expires_in'' v kvs) ''access_token'' = Some bearer"
      using assms(2) by (simp add: update_conv')
    then have "AList.update ''expires_in'' v kvs \<noteq> []"
      by auto
    then show ?thesis
      using that m assms(3,4) by (simp add: get_access_token_def Let_def)
  qed
  from a b show ?thesis by blast
qed

theorem cached_token_when_not_401_witness:
  "get_access_token (test_ext 503 NoRequest) later_run
     = (Inr (JStr ''abc''), emit [ProbeGet (JStr ''abc'')] later_run)
   \<and> get_access_token (test_ext 503 NoRequest) timed_run
     = (Inr (JStr ''abc''), emit [ProbeGet (JStr ''abc'')] timed_run)"
proof -
  let ?x = "test_ext 503 NoRequest"
  let ?kvs = "[(''access_token'', JStr ''abc''), (''refresh_token'', JStr ''xyz'')]"
  have h1: "load_tokens ?x later_run = Inr (Some (JObj ?kvs))"
    using test_load(1) [of 503 NoRequest] by (simp add: stored_tokens_def)
  have h2: "map_of ?kvs ''access_token'' = Some (JStr ''abc'')"
    by simp
  have h3: "get_me ?x (JStr ''abc'') = Response 503 []"
    by (simp add: test_ext_def)
  have h4: "(503::nat) \<noteq> 401"
    by simp
  have h5: "load_tokens ?x timed_run
              = Inr (Some (JObj (AList.update ''expires_in'' (JInt 3600) ?kvs)))"
    using test_load(2) [of 503 NoRequest] by (simp add: timed_tokens_def)
  from cached_token_when_not_401 [OF h1 h2 h3 h4] h5 show ?thesis
    by blast
qed

subsection \<open>The credential file is written only after an exchange\<close>

text \<open>
  C10. When the stored token set is used and the probe answers with a status other than
  401, \<open>get_access_token\<close> leaves the credential file as it was and writes nothing to it.
  And whenever \<open>get_access_token\<close> does write to the file, the client credentials are
  configured and the token endpoint has answered a grant with a 2xx status.
\<close>

theorem no_write_when_not_401:
  "(load_tokens x w = Inr (Some tokens) \<and> truthy tokens
      \<and> getitem tokens ''access_token'' = Inr bearer
      \<and> get_me x bearer = Response st body \<and> st \<noteq> 401
     \<longrightarrow> token_file (snd (get_access_token x w)) = token_file w
       \<and> filter is_file_event (trace (snd (get_access_token x w)))
           = filter is_file_event (trace w))
   \<and> (filter is_file_event (trace (snd (get_access_token x w)))
        \<noteq> filter is_file_event (trace w)
     \<longrightarrow> (\<exists>req cred st' answer. get_credentials w = Inr cred
            \<and> post_token x req cred = Response st' answer \<and> is_success st'))"
proof -
  have p1: "token_file (snd (get_access_token x w)) = token_file w
       \<and> filter is_file_event (trace (snd (get_access_token x w)))
           = filter is_file_event (trace w)"
    if "load_tokens x w = Inr (Some tokens)" "truthy tokens"
      "getitem tokens ''access_token'' = Inr bearer"
      "get_me x bearer = Response st body" "st \<noteq> 401"
    using that by (simp add: get_access_token_def Let_def)
  have p2: "\<exists>req cred st' answer. get_credentials w = Inr cred
            \<and> post_token x req cred = Response st' answer \<and> is_success st'"
    if f: "filter is_file_event (trace (snd (get_access_token x w)))
             \<noteq> filter is_file_event (trace w)"
  proof -
    consider (auth) "snd (get_access_token x w) = snd (authorize x w)"
      | (same) "filter is_file_event (trace (snd (get_access_token x w)))
                  = filter is_file_event (trace w)"
      | (refresh) r b where
          "snd (get_access_token x w) = snd (refresh_access_token x r (emit [ProbeGet b] w))"
      using get_access_token_cases [of x w] by blast
    then show ?thesis
    proof cases
      case auth
      then show ?thesis
        using f authorize_writes_only_on_success [of x w] by auto blast
    next
      case same
      then show ?thesis
        using f by simp
    next
      case (refresh r b)
      then show ?thesis
        using f refresh_writes_only_on_success [of x r "emit [ProbeGet b] w"] by auto blast
    qed
  qed
  from p1 p2 show ?thesis by blast
qed

theorem no_write_when_not_401_witness:
  "token_file (snd (get_access_token (test_ext 200 NoRequest) later_run)) = Some ''stored''
   \<and> filter is_file_event (trace (snd (get_access_token (test_ext 200 NoRequest) later_run))) = []
   \<and> filter is_file_event (trace (snd (get_access_token (test_ext 401 NoRequest) later_run))) \<noteq> []
   \<and> (\<exists>req cred st' answer. get_credentials later_run = Inr cred
        \<and> post_token (test_ext 401 NoRequest) req cred = Response st' answer \<and> is_success st')"
proof -
  have h: "load_tokens (test_ext 200 NoRequest) later_run = Inr (Some stored_tokens)
       \<and> truthy stored_tokens
       \<and> getitem stored_tokens ''access_token'' = Inr (JStr ''abc'')
       \<and> get_me (test_ext 200 NoRequest) (JStr ''abc'') = Response 200 [] \<and> (200::nat) \<noteq> 401"
    by (simp add: test_load) (simp add: stored_tokens_def test_ext_def)
  have t: "trace later_run = []" "token_file later_run = Some ''stored''"
    by (simp_all add: later_run_def)
  have g: "get_access_token (test_ext 401 NoRequest) later_run =
      (case refresh_access_token (test_ext 401 NoRequest) (JStr ''xyz'')
              (emit [ProbeGet (JStr ''abc'')] later_run) of
         (Inl e, w2) \<Rightarrow> (Inl e, w2)
       | (Inr new_tokens, w2) \<Rightarrow> (getitem new_tokens ''access_token'', w2))"
    by (simp add: get_access_token_def test_load Let_def)
       (simp add: stored_tokens_def test_ext_def)
  have w: "filter is_file_event (trace (snd (get_access_token (test_ext 401 NoRequest) later_run)))
             \<noteq> []"
    unfolding g snd_case_result
    by (simp add: refresh_access_token_def test_credentials is_success_def test_ext_def
          table_loads_def test_docs_def stored_tokens_def refresh_answer_def
          refreshed_tokens_def timed_tokens_def t)
  show ?thesis
    using no_write_when_not_401 [of "test_ext 200 NoRequest" later_run stored_tokens
            "JStr ''abc''" 200 "[]"]
      no_write_when_not_401 [of "test_ext 401 NoRequest" later_run stored_tokens
            "JStr ''abc''" 200 "[]"] h w t
    by simp
qed

subsection \<open>Timeout and denial\<close>

text \<open>
  C4, as stated, fails: with no request within the timeout and with a redirect that
  carries \<^verbatim>\<open>error=access_denied\<close>, \<open>authorize\<close> raises the very same error.
\<close>

theorem timeout_reported_as_denial_counterexample:
  "fst (authorize (test_ext 200 NoRequest) first_run) = Inl timed_out_or_failed
   \<and> fst (authorize (test_ext 200 (Request denied)) first_run) = Inl timed_out_or_failed"
  by (simp add: authorize_def test_credentials test_port_free listen_auth_code test_ext_def)
     (simp add: do_GET_def failure_page_def qs_defs denied_def)

text \<open>
  C4, amended. With the client credentials configured and the port free, \<open>authorize\<close>
  fails with the one error \<^verbatim>\<open>RuntimeError("Authorization timed out or failed.")\<close> both when no
  request reaches the listener within the timeout and when the request that reaches it
  carries no \<^verbatim>\<open>code\<close> (a provider denial carrying \<^verbatim>\<open>error\<close>, for instance): the result does
  not tell a timeout from a denial.
\<close>

theorem timeout_and_denial_same_error:
  assumes "get_credentials w = Inr cred"
    and "port_free w"
    and "redirect x = NoRequest
         \<or> (\<exists>qs. redirect x = Request qs \<and> parse_qs x qs ''code'' = None)"
  shows "fst (authorize x w) = Inl timed_out_or_failed"
proof -
  obtain cid cs where cred: "cred = (cid, cs)"
    by (cases cred)
  have "auth_code (listen x cid w) = None"
    using assms(3) by (auto simp: listen_auth_code do_GET_no_code)
  then show ?thesis
    using assms(1,2) cred by (simp add: authorize_def Let_def)
qed

theorem timeout_and_denial_same_error_witness:
  "fst (authorize (test_ext 200 NoRequest) timed_run) = Inl timed_out_or_failed
   \<and> fst (authorize (test_ext 200 (Request denied)) timed_run) = Inl timed_out_or_failed"
proof -
  have h1: "get_credentials timed_run = Inr (''test-id'', ''test-secret'')"
    by (rule test_credentials)
  have h2: "port_free timed_run"
    by (rule test_port_free)
  have h3: "redirect (test_ext 200 NoRequest) = NoRequest
       \<or> (\<exists>qs. redirect (test_ext 200 NoRequest) = Request qs
                \<and> parse_qs (test_ext 200 NoRequest) qs ''code'' = None)"
    by (simp add: test_ext_def)
  have "parse_qs (test_ext 200 (Request denied)) denied ''code'' = None"
    by (simp add: qs_defs denied_def)
  then have h4: "redirect (test_ext 200 (Request denied)) = NoRequest
       \<or> (\<exists>qs. redirect (test_ext 200 (Request denied)) = Request qs
                \<and> parse_qs (test_ext 200 (Request denied)) qs ''code'' = None)"
    by (simp add: test_ext_def)
  show ?thesis
    using timeout_and_denial_same_error [OF h1 h2 h3]
      timeout_and_denial_same_error [OF h1 h2 h4]
    by simp
qed

subsection \<open>Saving and loading\<close>

text \<open>
  C7, as stated, fails: while the refreshed token set is saved over the stored one, the
  first state of the credential file that a reader can observe is the empty file, which
  is neither the previous record nor the new one.
\<close>

theorem save_not_atomic_counterexample:
  "token_file later_run = Some ''stored''
   \<and> dumps (test_ext 401 NoRequest) refreshed_tokens = ''refreshed''
   \<and> token_file
       (hd (write_text_states (dumps (test_ext 401 NoRequest) refreshed_tokens) later_run))
       = Some []"
  by (simp add: write_text_states_def test_defs)

text \<open>
  C7, amended. \<open>save_tokens\<close> writes the serialised token set into the credential file
  itself, in place: the file is first emptied and then holds the complete new record,
  which is its content when \<open>save_tokens\<close> returns. Between the two a reader sees the
  empty file.
\<close>

theorem save_in_place:
  "save_tokens x tokens w = last (write_text_states (dumps x tokens) w)
   \<and> map token_file (write_text_states (dumps x tokens) w) = [Some [], Some (dumps x tokens)]
   \<and> token_file (save_tokens x tokens w) = Some (dumps x tokens)"
  by (simp add: save_tokens_def write_text_def write_text_states_def)

text \<open>
  C8. With the JSON library of Python, saving a flat record, and so a well-formed token
  set or the two-field record of the repository's test, and then loading returns that
  record, equal field for field; and when the credential file does not exist, loading
  returns \<^verbatim>\<open>None\<close> and raises nothing.
\<close>

theorem save_load_roundtrip:
  assumes "dumps x = json_dumps" and "loads x = json_loads"
  shows "(flat_record t \<longrightarrow> load_tokens x (save_tokens x t w) = Inr (Some t))
       \<and> (token_set t \<longrightarrow> flat_record t)
       \<and> (token_file w = None \<longrightarrow> load_tokens x w = Inr None)"
proof -
  have a: "load_tokens x (save_tokens x t w) = Inr (Some t)" if "flat_record t"
    using json_loads_dumps [OF flat_record_wf [OF that]] assms
    by (simp add: load_tokens_def)
  have b: "flat_record t" if "token_set t"
    using that by (cases t) simp_all
  have c: "load_tokens x w = Inr None" if "token_file w = None"
    using that by (simp add: load_tokens_def)
  from a b c show ?thesis
    by blast
qed

theorem save_load_roundtrip_witness:
  "load_tokens json_ext (save_tokens json_ext stored_tokens first_run) = Inr (Some stored_tokens)
   \<and> token_file (save_tokens json_ext stored_tokens first_run) = Some stored_text
   \<and> token_set full_tokens
   \<and> load_tokens json_ext (save_tokens json_ext full_tokens later_run) = Inr (Some full_tokens)
   \<and> load_tokens json_ext first_run = Inr None"
proof -
  have t: "json_dumps stored_tokens = stored_text"
    by (simp add: stored_tokens_def stored_text_def encode_str_def escape_char_def quote_def
          backslash_def)
  have h: "dumps json_ext = json_dumps" "loads json_ext = json_loads"
    by (simp_all add: json_ext_def)
  have d: "length (digits 3600) \<le> 4300"
    by (simp add: digits.simps)
  have f1: "flat_record stored_tokens"
    by (simp add: stored_tokens_def)
  have f2: "token_set full_tokens"
    using d by (simp add: full_tokens_def)
  have n: "token_file first_run = None"
    by (simp add: first_run_def)
  show ?thesis
    using save_load_roundtrip [OF h, of stored_tokens first_run]
      save_load_roundtrip [OF h, of full_tokens later_run] f1 f2 n t
    by (simp add: h)
qed

subsection \<open>The supervisor on a 401\<close>

text \<open>
  C1, as stated, fails: with the stored token set of the tests, the probe answering 401
  and the client credentials not configured, \<open>get_access_token\<close> raises the
  missing-credentials error, sends nothing to the token endpoint and leaves the
  credential file as it was: no refresh exchange is performed, and nothing is returned.
\<close>

theorem no_refresh_without_credentials_counterexample:
  "load_tokens (test_ext 401 NoRequest) unconfigured = Inr (Some stored_tokens)
   \<and> get_me (test_ext 401 NoRequest) (JStr ''abc'') = Response 401 []
   \<and> get_access_token (test_ext 401 NoRequest) unconfigured
       = (Inl missing_credentials, emit [ProbeGet (JStr ''abc'')] unconfigured)
   \<and> filter is_token_post (trace (emit [ProbeGet (JStr ''abc'')] unconfigured)) = []"
proof -
  have l: "load_tokens (test_ext 401 NoRequest) unconfigured = Inr (Some stored_tokens)"
    by (simp add: load_tokens_def test_defs)
  have c: "get_credentials unconfigured = Inl missing_credentials"
    by (rule get_credentials_missing) (simp add: unconfigured_def)
  have p: "get_me (test_ext 401 NoRequest) (JStr ''abc'') = Response 401 []"
    by (simp add: test_ext_def)
  have g: "get_access_token (test_ext 401 NoRequest) unconfigured
       = (Inl missing_credentials, emit [ProbeGet (JStr ''abc'')] unconfigured)"
    by (simp add: get_access_token_def l Let_def stored_tokens_def p refresh_access_token_def c)
  have t: "filter is_token_post (trace (emit [ProbeGet (JStr ''abc'')] unconfigured)) = []"
    by (simp add: unconfigured_def)
  from l p g t show ?thesis
    by simp
qed

text \<open>
  C1, amended. Let the credential file hold a token set with an access token and let the
  probe answer 401. Then \<open>get_access_token\<close> starts no authorization flow (no socket, no
  thread, no browser, no authorization-code grant), whatever else happens. When the
  stored set also has a refresh token \<open>r\<close> and the client credentials are configured, it
  sends exactly one request to the token endpoint, the \<^verbatim>\<open>refresh_token\<close> grant for \<open>r\<close>,
  whatever the provider answers. When the provider answers that grant 2xx with a JSON
  object holding an access token, the provider's object, with \<open>r\<close> added as its refresh
  token when it has none, is what the credential file holds afterwards, and its access
  token is returned. When the provider answers with another status, the error of that
  status is raised and the credential file is as it was. When the stored set has no
  refresh token, or the client credentials are not configured, the error of that is
  raised and the probe is the only effect: no exchange is performed.
\<close>

theorem refresh_once_on_401:
  assumes "load_tokens x w = Inr (Some tokens)"
    and "truthy tokens"
    and "getitem tokens ''access_token'' = Inr bearer"
    and "get_me x bearer = Response 401 body"
  shows "filter is_authorization_event (trace (snd (get_access_token x w)))
           = filter is_authorization_event (trace w)
       \<and> (getitem tokens ''refresh_token'' = Inl e
          \<longrightarrow> get_access_token x w = (Inl e, emit [ProbeGet bearer] w))
       \<and> (getitem tokens ''refresh_token'' = Inr r \<and> get_credentials w = Inl e
          \<longrightarrow> get_access_token x w = (Inl e, emit [ProbeGet bearer] w))
       \<and> (getitem tokens ''refresh_token'' = Inr r \<and> get_credentials w = Inr cred
          \<longrightarrow> filter is_token_post (trace (snd (get_access_token x w)))
                = filter is_token_post (trace w) @ [TokenPost (RefreshToken r) cred]
            \<and> (post_token x (RefreshToken r) cred = Response st answer \<and> is_success st
                 \<and> loads x answer = Inr (JObj kvs) \<and> map_of kvs ''access_token'' = Some fresh
               \<longrightarrow> get_access_token x w =
                     (Inr fresh,
                      save_tokens x
                        (JObj (if ''refresh_token'' \<in> fst ` set kvs then kvs
                               else AList.update ''refresh_token'' r kvs))
                        (emit [ProbeGet bearer, TokenPost (RefreshToken r) cred] w))
                 \<and> getitem (JObj (if ''refresh_token'' \<in> fst ` set kvs then kvs
                                   else AList.update ''refresh_token'' r kvs)) ''access_token''
                     = Inr fresh)
            \<and> (post_token x (RefreshToken r) cred = Response st answer \<and> \<not> is_success st
               \<longrightarrow> fst (get_access_token x w) = Inl (HTTPStatusError st)
                 \<and> token_file (snd (get_access_token x w)) = token_file w))"
proof -
  let ?w1 = "emit [ProbeGet bearer] w"
  have em: "emit [TokenPost (RefreshToken r) cred] ?w1
             = emit [ProbeGet bearer, TokenPost (RefreshToken r) cred] w"
    by (simp add: emit_def)
  have a: "filter is_authorization_event (trace (snd (get_access_token x w)))
           = filter is_authorization_event (trace w)"
  proof (cases "getitem tokens ''refresh_token''")
    case (Inl err)
    then show ?thesis
      using assms by (simp add: get_access_token_def Let_def)
  next
    case (Inr rt)
    have g: "get_access_token x w =
      (case refresh_access_token x rt ?w1 of
         (Inl e, w2) \<Rightarrow> (Inl e, w2)
       | (Inr new_tokens, w2) \<Rightarrow> (getitem new_tokens ''access_token'', w2))"
      using assms Inr by (simp add: get_access_token_def Let_def)
    show ?thesis
    proof (cases "get_credentials w")
      case (Inl err)
      then show ?thesis
        unfolding g snd_case_result by (simp add: refresh_access_token_def)
    next
      case (Inr cred')
      then have "get_credentials ?w1 = Inr cred'"
        by simp
      from refresh_trace(2) [OF this, of x rt] show ?thesis
        unfolding g snd_case_result by simp
    qed
  qed
  have b: "filter is_token_post (trace (snd (get_access_token x w)))
                = filter is_token_post (trace w) @ [TokenPost (RefreshToken r) cred]
            \<and> (post_token x (RefreshToken r) cred = Response st answer \<and> is_success st
                 \<and> loads x answer = Inr (JObj kvs) \<and> map_of kvs ''access_token'' = Some fresh
               \<longrightarrow> get_access_token x w =
                     (Inr fresh,
                      save_tokens x
                        (JObj (if ''refresh_token'' \<in> fst ` set kvs then kvs
                               else AList.update ''refresh_token'' r kvs))
                        (emit [ProbeGet bearer, TokenPost (RefreshToken r) cred] w))
                 \<and> getitem (JObj (if ''refresh_token'' \<in> fst ` set kvs then kvs
                                   else AList.update ''refresh_token'' r kvs)) ''access_token''
                     = Inr fresh)
            \<and> (post_token x (RefreshToken r) cred = Response st answer \<and> \<not> is_success st
               \<longrightarrow> fst (get_access_token x w) = Inl (HTTPStatusError st)
                 \<and> token_file (snd (get_access_token x w)) = token_file w)"
    if r: "getitem tokens ''refresh_token'' = Inr r" and cr: "get_credentials w = Inr cred"
  proof -
    have c: "get_credentials ?w1 = Inr cred"
      using cr by simp
    have g: "get_access_token x w =
      (case refresh_access_token x r ?w1 of
         (Inl e, w2) \<Rightarrow> (Inl e, w2)
       | (Inr new_tokens, w2) \<Rightarrow> (getitem new_tokens ''access_token'', w2))"
      using assms r by (simp add: get_access_token_def Let_def)
    have p1: "filter is_token_post (trace (snd (get_access_token x w)))
                = filter is_token_post (trace w) @ [TokenPost (RefreshToken r) cred]"
      unfolding g snd_case_result using refresh_trace(1) [OF c, of x r] by simp
    have p2: "get_access_token x w =
                     (Inr fresh,
                      save_tokens x
                        (JObj (if ''refresh_token'' \<in> fst ` set kvs then kvs
                               else AList.update ''refresh_token'' r kvs))
                        (emit [ProbeGet bearer, TokenPost (RefreshToken r) cred] w))
                 \<and> getitem (JObj (if ''refresh_token'' \<in> fst ` set kvs then kvs
                                   else AList.update ''refresh_token'' r kvs)) ''access_token''
                     = Inr fresh"
      if h: "post_token x (RefreshToken r) cred = Response st answer" "is_success st"
        "loads x answer = Inr (JObj kvs)" "map_of kvs ''access_token'' = Some fresh"
    proof (cases "''refresh_token'' \<in> fst ` set kvs")
      case True
      then have "refresh_access_token x r ?w1 =
          (Inr (JObj kvs),
           save_tokens x (JObj kvs) (emit [TokenPost (RefreshToken r) cred] ?w1))"
        using h c by (cases cred) (simp add: refresh_access_token_def Let_def)
      then show ?thesis
        using h(4) True by (simp add: g em)
    next
      case False
      then have "refresh_access_token x r ?w1 =
          (Inr (JObj (AList.update ''refresh_token'' r kvs)),
           save_tokens x (JObj (AList.update ''refresh_token'' r kvs))
             (emit [TokenPost (RefreshToken r) cred] ?w1))"
        using h c by (cases cred) (simp add: refresh_access_token_def Let_def)
      then show ?thesis
        using h(4) False by (simp add: g em update_conv')
    qed
    have p3: "fst (get_access_token x w) = Inl (HTTPStatusError st)
                 \<and> token_file (snd (get_access_token x w)) = token_file w"
      if h: "post_token x (RefreshToken r) cred = Response st answer" "\<not> is_success st"
    proof -
      have "refresh_access_token x r ?w1 =
          (Inl (HTTPStatusError st), emit [TokenPost (RefreshToken r) cred] ?w1)"
        using h c by (cases cred) (simp add: refresh_access_token_def Let_def)
      then show ?thesis
        by (simp add: g)
    qed
    from p1 p2 p3 show ?thesis
      by blast
  qed
  have c: "get_access_token x w = (Inl e, emit [ProbeGet bearer] w)"
    if "getitem tokens ''refresh_token'' = Inl e"
    using assms that by (simp add: get_access_token_def Let_def)
  have d: "get_access_token x w = (Inl e, emit [ProbeGet bearer] w)"
    if "getitem tokens ''refresh_token'' = Inr r" "get_credentials w = Inl e"
    using assms that by (simp add: get_access_token_def Let_def refresh_access_token_def)
  from a b c d show ?thesis
    by blast
qed

theorem refresh_once_on_401_witness:
  "filter is_authorization_event
     (trace (snd (get_access_token (test_ext 401 NoRequest) later_run))) = []
   \<and> filter is_token_post (trace (snd (get_access_token (test_ext 401 NoRequest) later_run)))
       = [TokenPost (RefreshToken (JStr ''xyz'')) (''test-id'', ''test-secret'')]
   \<and> get_access_token (test_ext 401 NoRequest) later_run
       = (Inr (JStr ''new''),
          save_tokens (test_ext 401 NoRequest) refreshed_tokens
            (emit [ProbeGet (JStr ''abc''),
                   TokenPost (RefreshToken (JStr ''xyz'')) (''test-id'', ''test-secret'')]
               later_run))
   \<and> token_file (snd (get_access_token (test_ext 401 NoRequest) later_run)) = Some ''refreshed''"
proof -
  let ?x = "test_ext 401 NoRequest"
  have h1: "load_tokens ?x later_run = Inr (Some stored_tokens)"
    by (rule test_load)
  have h2: "truthy stored_tokens"
    by (simp add: stored_tokens_def)
  have h3: "getitem stored_tokens ''access_token'' = Inr (JStr ''abc'')"
    by (simp add: stored_tokens_def)
  have h4: "get_me ?x (JStr ''abc'') = Response 401 []"
    by (simp add: test_ext_def)
  have h5: "getitem stored_tokens ''refresh_token'' = Inr (JStr ''xyz'')
            \<and> get_credentials later_run = Inr (''test-id'', ''test-secret'')"
    by (simp add: stored_tokens_def test_credentials)
  have h6: "post_token ?x (RefreshToken (JStr ''xyz'')) (''test-id'', ''test-secret'')
              = Response 200 ''answer''
            \<and> is_success 200
            \<and> loads ?x ''answer'' = Inr (JObj [(''access_token'', JStr ''new'')])
            \<and> map_of [(''access_token'', JStr ''new'')] ''access_token'' = Some (JStr ''new'')"
    by (simp add: test_defs is_success_def)
  have d: "dumps ?x refreshed_tokens = ''refreshed''"
    by (simp add: test_defs)
  have t: "trace later_run = []"
    by (simp add: later_run_def)
  have u: "JObj (if ''refresh_token'' \<in> fst ` set [(''access_token'', JStr ''new'')]
                 then [(''access_token'', JStr ''new'')]
                 else AList.update ''refresh_token'' (JStr ''xyz'')
                        [(''access_token'', JStr ''new'')]) = refreshed_tokens"
    by (simp add: refreshed_tokens_def)
  show ?thesis
    using refresh_once_on_401 [OF h1 h2 h3 h4,
        where r = "JStr ''xyz''" and cred = "(''test-id'', ''test-secret'')" and st = 200
          and answer = "''answer''" and kvs = "[(''access_token'', JStr ''new'')]"
          and fresh = "JStr ''new''"] h5 h6 d t
    unfolding u by simp
qed

subsection \<open>The callback handler\<close>

text \<open>
  C5, as stated, fails: the query string \<^verbatim>\<open>code=\<close> contains a \<^verbatim>\<open>code\<close> parameter, yet the
  handler captures nothing and answers 400 with the page for an unknown error.
\<close>

theorem blank_code_counterexample:
  "do_GET (test_ext 200 NoRequest) ''code='' None
     = Inr ((400, ''<h1>Authorization failed: unknown</h1>''), None)"
  by (simp add: do_GET_def failure_page_def qs_defs)

text \<open>
  C5, amended. For every GET request received by the callback handler: when the query
  string has a \<^verbatim>\<open>code\<close> field with a value that is not blank, the handler captures the
  first such value and answers 200 with the page
  \<^verbatim>\<open><h1>Authorization successful!</h1><p>You can close this tab.</p>\<close>; a field with a blank
  value does not count. When the query string has no such \<^verbatim>\<open>code\<close> field, the handler
  leaves the captured code as it was and answers 400 with the page
  \<^verbatim>\<open><h1>Authorization failed: E</h1>\<close>, \<open>E\<close> being the first value that is not blank of an
  \<^verbatim>\<open>error\<close> field, or \<^verbatim>\<open>unknown\<close> when there is none. In particular the query strings
  \<^verbatim>\<open>code=V\<close> and \<^verbatim>\<open>error=V\<close>, with \<open>V\<close> free of \<^verbatim>\<open>&\<close>, \<^verbatim>\<open>+\<close> and \<^verbatim>\<open>%\<close> and not empty, are
  answered so with the value \<open>V\<close>. In the authorization flow, which resets the captured
  code before listening, the captured code after the listener is that value in the first
  case and none in the second.
\<close>

theorem callback_handler_responses:
  "(parse_qs x qs ''code'' = Some (c # cs)
      \<longrightarrow> do_GET x qs ac
          = Inr ((200, ''<h1>Authorization successful!</h1><p>You can close this tab.</p>''),
                 Some c))
   \<and> (parse_qs x qs ''code'' = None \<and> parse_qs x qs ''error'' = Some (err # errs)
        \<longrightarrow> do_GET x qs ac
            = Inr ((400, ''<h1>Authorization failed: '' @ err @ ''</h1>''), ac))
   \<and> (parse_qs x qs ''code'' = None \<and> parse_qs x qs ''error'' = None
        \<longrightarrow> do_GET x qs ac = Inr ((400, ''<h1>Authorization failed: unknown</h1>''), ac))
   \<and> (v \<noteq> [] \<and> CHR ''&'' \<notin> set v \<and> CHR ''+'' \<notin> set v \<and> CHR ''%'' \<notin> set v
        \<longrightarrow> do_GET x (''code='' @ v) ac
            = Inr ((200, ''<h1>Authorization successful!</h1><p>You can close this tab.</p>''),
                   Some v)
          \<and> do_GET x (''error='' @ v) ac
            = Inr ((400, ''<h1>Authorization failed: '' @ v @ ''</h1>''), ac))
   \<and> (redirect x = Request qs \<and> parse_qs x qs ''code'' = Some (c # cs)
        \<longrightarrow> auth_code (listen x client_id w) = Some c)
   \<and> (redirect x = Request qs \<and> parse_qs x qs ''code'' = None
        \<longrightarrow> auth_code (listen x client_id w) = None)"
proof -
  have p: "parse_qs x (name @ CHR ''='' # v) k = (if k = name then Some [v] else None)"
    if "v \<noteq> []" "CHR ''&'' \<notin> set v" "CHR ''+'' \<notin> set v" "CHR ''%'' \<notin> set v"
      "CHR ''&'' \<notin> set name" "CHR ''+'' \<notin> set name" "CHR ''%'' \<notin> set name"
      "CHR ''='' \<notin> set name"
    for name v k
  proof -
    have s: "split_on CHR ''&'' (name @ CHR ''='' # v) = [name @ CHR ''='' # v]"
      using that(2,5) by (simp add: split_on_none)
    have f: "split_first CHR ''='' (name @ CHR ''='' # v) = [name, v]"
      using that(8) by (simp add: split_first_def split_at_first)
    have m: "plus_to_space name = name" "plus_to_space v = v"
      using that(3,6) by (simp_all add: plus_to_space_id)
    show ?thesis
      using that(1,4,7) by (simp add: parse_qs_def parse_qsl_def parse_field_def s f m unquote_def)
  qed
  have q: "v \<noteq> [] \<and> CHR ''&'' \<notin> set v \<and> CHR ''+'' \<notin> set v \<and> CHR ''%'' \<notin> set v
        \<longrightarrow> do_GET x (''code='' @ v) ac
            = Inr ((200, ''<h1>Authorization successful!</h1><p>You can close this tab.</p>''),
                   Some v)
          \<and> do_GET x (''error='' @ v) ac
            = Inr ((400, ''<h1>Authorization failed: '' @ v @ ''</h1>''), ac)"
    using p [of v "''code''"] p [of v "''error''"]
    by (simp add: do_GET_def success_page_def failure_page_def)
  show ?thesis
    using q
    by (auto simp: do_GET_def success_page_def failure_page_def listen_auth_code
          simp del: append.simps split: option.split list.split)
qed

theorem callback_handler_responses_witness:
  "do_GET (test_ext 200 NoRequest) ''code=ABC123'' None
     = Inr ((200, ''<h1>Authorization successful!</h1><p>You can close this tab.</p>''),
            Some ''ABC123'')
   \<and> do_GET (test_ext 200 NoRequest) ''error=access_denied'' None
     = Inr ((400, ''<h1>Authorization failed: access_denied</h1>''), None)
   \<and> auth_code (listen (test_ext 200 (Request granted)) ''test-id'' first_run) = Some ''ABC123''
   \<and> auth_code (listen (test_ext 200 (Request denied)) ''test-id'' first_run) = None"
proof -
  have g: "parse_qs (test_ext 200 (Request granted)) granted ''code'' = Some [''ABC123'']"
    by (simp add: qs_defs granted_def)
  have d: "parse_qs (test_ext 200 (Request denied)) denied ''code'' = None"
    by (simp add: qs_defs denied_def)
  have r: "redirect (test_ext 200 (Request granted)) = Request granted"
    "redirect (test_ext 200 (Request denied)) = Request denied"
    by (simp_all add: test_ext_def)
  show ?thesis
    using
      callback_handler_responses [of "test_ext 200 NoRequest" "[]" "[]" "[]" None "[]" "[]"
        "''ABC123''" "''test-id''" first_run]
      callback_handler_responses [of "test_ext 200 NoRequest" "[]" "[]" "[]" None "[]" "[]"
        "''access_denied''" "''test-id''" first_run]
      callback_handler_responses [of "test_ext 200 (Request granted)" granted "''ABC123''" "[]"
        None "[]" "[]" "[]" "''test-id''" first_run]
      callback_handler_responses [of "test_ext 200 (Request denied)" denied "[]" "[]"
        None "[]" "[]" "[]" "''test-id''" first_run]
      g d r
    by simp
qed

subsection \<open>The listener's thread and socket\<close>

text \<open>
  C9. The code does not do what the claim says when no request reaches the listener
  within the timeout: the join gives up, \<^verbatim>\<open>server_close()\<close> is called while the listener
  thread is still running, the port is not released when \<open>authorize\<close> returns, and the
  next call of \<open>authorize\<close> cannot bind it.
\<close>

theorem port_leaked_on_timeout:
  "port_free first_run
   \<and> fst (authorize (test_ext 200 NoRequest) first_run) = Inl timed_out_or_failed
   \<and> closed_unjoined False (authorize_events (test_ext 200 NoRequest) first_run)
   \<and> \<not> port_free (snd (authorize (test_ext 200 NoRequest) first_run))
   \<and> fst (authorize (test_ext 200 NoRequest) (snd (authorize (test_ext 200 NoRequest) first_run)))
       = Inl OSError"
proof -
  let ?x = "test_ext 200 NoRequest"
  have r: "redirect ?x = NoRequest"
    by (simp add: test_ext_def)
  have a: "authorize ?x first_run = (Inl timed_out_or_failed, listen ?x ''test-id'' first_run)"
    by (simp add: authorize_def test_credentials test_port_free listen_auth_code r)
  have p: "\<not> port_free (listen ?x ''test-id'' first_run)"
    by (simp add: listen_port_free r)
  have b: "fst (authorize ?x (listen ?x ''test-id'' first_run)) = Inl OSError"
    by (simp add: authorize_def test_credentials p)
  have e: "closed_unjoined False (authorize_events ?x first_run)"
    by (simp add: authorize_events_def a listen_trace r)
  from a b e p test_port_free(1) show ?thesis
    by simp
qed

end
